theory Spec2Isabelle
  imports Main
begin

section \<open>Memory: blocks of slots, pointers and the allocator\<close>

text \<open>
  The container of \<^verbatim>\<open>vector.h\<close> separates storage from object lifetime, so the model
  does too. A block returned by \<^verbatim>\<open>operator new\<close> is a list of slots; a slot is either raw
  storage or holds a live object of the element type. A pointer \<^verbatim>\<open>T*\<close> is a block
  identity (\<open>None\<close> for the null pointer) and an element offset.

  Sizes (\<^verbatim>\<open>size_t\<close>, 64 bits) are natural numbers. The subtractions the code performs
  on \<^verbatim>\<open>size_t\<close>, which can wrap around on small inputs, and the byte count
  \<^verbatim>\<open>n * sizeof(T)\<close> of an allocation, which wraps around for a capacity the caller
  chooses large enough, are written with the wrap-around (\<open>size_t_sub\<close>, \<open>to_size_t\<close>,
  \<open>size_t_mul\<close>). The increments of the size and the doubling \<^verbatim>\<open>size_ * 2\<close> act on the
  number of objects a block holds and are written without it: where a theorem below
  passes through the doubling it assumes that the byte count of the doubled block is
  representable (\<open>fits\<close>), and then the doubling does not wrap around either.
\<close>

datatype 'a slot = Raw | Live 'a

datatype ptr = Ptr (blk: "nat option") (off: nat)

record 'a heap =
  blocks :: "nat \<Rightarrow> 'a slot list option"
  next_block :: nat
  avail :: nat

text \<open>
  The result of running a piece of code: it completes with a result and a state, it
  throws \<^verbatim>\<open>std::bad_alloc\<close> and leaves a state behind, or it faults (an \<^verbatim>\<open>assert\<close> fails
  or the behaviour is undefined: an access outside a block or outside an object's
  lifetime, arithmetic on unrelated pointers, releasing a block twice).
\<close>

datatype ('r, 's) outcome = Done 'r 's | Thrown 's | Fault

fun and_then :: "('r, 's) outcome \<Rightarrow> ('r \<Rightarrow> 's \<Rightarrow> ('q, 's) outcome) \<Rightarrow> ('q, 's) outcome" where
  "and_then (Done r s) f = f r s"
| "and_then (Thrown s) f = Thrown s"
| "and_then Fault f = Fault"

fun must :: "'x option \<Rightarrow> 's \<Rightarrow> ('x, 's) outcome" where
  "must None s = Fault"
| "must (Some x) s = Done x s"

definition nullptr :: ptr where
  "nullptr = Ptr None 0"

definition ptr_add :: "ptr \<Rightarrow> nat \<Rightarrow> ptr" where
  "ptr_add p n = Ptr (blk p) (off p + n)"

definition ptr_sub :: "ptr \<Rightarrow> nat \<Rightarrow> ptr option" where
  "ptr_sub p n = (if n \<le> off p then Some (Ptr (blk p) (off p - n)) else None)"

text \<open>\<^verbatim>\<open>std::distance(p, q)\<close> on pointers: a \<^verbatim>\<open>ptrdiff_t\<close>, defined within one block only.\<close>

definition distance :: "ptr \<Rightarrow> ptr \<Rightarrow> int option" where
  "distance p q = (if blk p = blk q then Some (int (off q) - int (off p)) else None)"

text \<open>The conversion of a \<^verbatim>\<open>ptrdiff_t\<close> to \<^verbatim>\<open>size_t\<close>, and \<^verbatim>\<open>a - b\<close> and \<^verbatim>\<open>a * b\<close> on
  \<^verbatim>\<open>size_t\<close>.\<close>

definition to_size_t :: "int \<Rightarrow> nat" where
  "to_size_t d = (if 0 \<le> d then nat d else nat (2 ^ 64 + d))"

definition size_t_sub :: "nat \<Rightarrow> nat \<Rightarrow> nat" where
  "size_t_sub a b = (if b \<le> a then a - b else 2 ^ 64 - (b - a))"

definition size_t_mul :: "nat \<Rightarrow> nat \<Rightarrow> nat" where
  "size_t_mul a b = nat ((int a * int b) mod 2 ^ 64)"

text \<open>
  The heap allocator is the environment: it has \<open>avail\<close> element-sized units left.
  \<^verbatim>\<open>operator new(count)\<close>, called for storage of objects of \<open>object_size\<close> bytes each,
  is a request of \<open>count div object_size\<close> units: it throws when the request exceeds
  what is left and otherwise hands out a fresh block of that many raw slots, an empty
  block when \<open>count\<close> is smaller than one object. \<^verbatim>\<open>operator delete\<close> gives the units
  back.
\<close>

definition operator_new :: "nat \<Rightarrow> nat \<Rightarrow> 'a heap \<Rightarrow> (ptr, 'a heap) outcome" where
  "operator_new object_size count h =
     (let n = count div object_size
      in
        if n \<le> avail h
        then Done (Ptr (Some (next_block h)) 0)
               (h\<lparr>blocks := (blocks h)(next_block h \<mapsto> replicate n Raw),
                  next_block := Suc (next_block h),
                  avail := avail h - n\<rparr>)
        else Thrown h)"

definition operator_delete :: "ptr \<Rightarrow> 'a heap \<Rightarrow> (unit, 'a heap) outcome" where
  "operator_delete p h =
     (if p = nullptr then Done () h
      else case blk p of
        None \<Rightarrow> Fault
      | Some b \<Rightarrow>
          (case blocks h b of
             None \<Rightarrow> Fault
           | Some sl \<Rightarrow>
               if off p = 0
               then Done () (h\<lparr>blocks := (blocks h)(b := None), avail := avail h + length sl\<rparr>)
               else Fault))"

subsection \<open>Single objects\<close>

definition cell :: "'a heap \<Rightarrow> ptr \<Rightarrow> 'a slot option" where
  "cell h p =
     (case blk p of
        None \<Rightarrow> None
      | Some b \<Rightarrow>
          (case blocks h b of
             None \<Rightarrow> None
           | Some sl \<Rightarrow> if off p < length sl then Some (sl ! off p) else None))"

definition put :: "ptr \<Rightarrow> 'a slot \<Rightarrow> 'a heap \<Rightarrow> 'a heap" where
  "put p c h =
     (case blk p of
        None \<Rightarrow> h
      | Some b \<Rightarrow>
          (case blocks h b of
             None \<Rightarrow> h
           | Some sl \<Rightarrow> h\<lparr>blocks := (blocks h)(b \<mapsto> sl[off p := c])\<rparr>))"

text \<open>
  What the container needs to know about the element type \<^verbatim>\<open>T\<close>: the value of \<^verbatim>\<open>T()\<close>,
  the state a move (construction or assignment) leaves in its source, the
  compile-time condition
  \<^verbatim>\<open>is_nothrow_move_constructible_v<T> || !is_copy_constructible_v<T>\<close>, and
  \<^verbatim>\<open>sizeof(T)\<close>. Element operations themselves do not throw in this model.
\<close>

record 'a elem_type =
  value_init :: 'a
  moved_from :: "'a \<Rightarrow> 'a"
  relocate_by_move :: bool
  sizeof :: nat

text \<open>Placement construction: the storage must exist; an object already there is overwritten
  without its destructor being run.\<close>

definition construct_at :: "ptr \<Rightarrow> 'a \<Rightarrow> 'a heap \<Rightarrow> (unit, 'a heap) outcome" where
  "construct_at p x h = (case cell h p of None \<Rightarrow> Fault | Some c \<Rightarrow> Done () (put p (Live x) h))"

definition destroy_at :: "ptr \<Rightarrow> 'a heap \<Rightarrow> (unit, 'a heap) outcome" where
  "destroy_at p h = (case cell h p of Some (Live x) \<Rightarrow> Done () (put p Raw h) | _ \<Rightarrow> Fault)"

text \<open>Reading through \<^verbatim>\<open>const T&\<close>, and consuming through \<^verbatim>\<open>T&&\<close>.\<close>

definition read_at :: "ptr \<Rightarrow> 'a heap \<Rightarrow> ('a, 'a heap) outcome" where
  "read_at p h = (case cell h p of Some (Live x) \<Rightarrow> Done x h | _ \<Rightarrow> Fault)"

definition move_from :: "'a elem_type \<Rightarrow> ptr \<Rightarrow> 'a heap \<Rightarrow> ('a, 'a heap) outcome" where
  "move_from T p h =
     (case cell h p of Some (Live x) \<Rightarrow> Done x (put p (Live (moved_from T x)) h) | _ \<Rightarrow> Fault)"

definition assign_at :: "ptr \<Rightarrow> 'a \<Rightarrow> 'a heap \<Rightarrow> (unit, 'a heap) outcome" where
  "assign_at p x h = (case cell h p of Some (Live y) \<Rightarrow> Done () (put p (Live x) h) | _ \<Rightarrow> Fault)"

text \<open>
  An argument of type \<^verbatim>\<open>const T&\<close> or \<^verbatim>\<open>T&&\<close> refers to an object outside every block
  (\<open>Ext\<close>, with its value) or to the object in a slot (\<open>At\<close>): the latter is how a
  caller passes an element of the vector itself.
\<close>

datatype 'a cref = Ext 'a | At ptr

datatype 'a args = ByConstRef "'a cref" | ByRvalue "'a cref"

text \<open>The value of \<^verbatim>\<open>T(std::forward<Args>(args)...)\<close>.\<close>

fun construct_T :: "'a elem_type \<Rightarrow> 'a args \<Rightarrow> 'a heap \<Rightarrow> ('a, 'a heap) outcome" where
  "construct_T T (ByConstRef (Ext x)) h = Done x h"
| "construct_T T (ByConstRef (At p)) h = read_at p h"
| "construct_T T (ByRvalue (Ext x)) h = Done x h"
| "construct_T T (ByRvalue (At p)) h = move_from T p h"

definition placement_new :: "'a elem_type \<Rightarrow> ptr \<Rightarrow> 'a args \<Rightarrow> 'a heap \<Rightarrow> (unit, 'a heap) outcome" where
  "placement_new T p a h = and_then (construct_T T a h) (\<lambda>x. construct_at p x)"

subsection \<open>The standard algorithms the container calls\<close>

primrec uninitialized_value_construct_n ::
  "'a elem_type \<Rightarrow> nat \<Rightarrow> ptr \<Rightarrow> 'a heap \<Rightarrow> (unit, 'a heap) outcome" where
  "uninitialized_value_construct_n T 0 = (\<lambda>first h. Done () h)"
| "uninitialized_value_construct_n T (Suc n) = (\<lambda>first h.
     and_then (construct_at first (value_init T) h)
       (\<lambda>_. uninitialized_value_construct_n T n (ptr_add first 1)))"

primrec uninitialized_copy_n :: "nat \<Rightarrow> ptr \<Rightarrow> ptr \<Rightarrow> 'a heap \<Rightarrow> (unit, 'a heap) outcome" where
  "uninitialized_copy_n 0 = (\<lambda>first d_first h. Done () h)"
| "uninitialized_copy_n (Suc n) = (\<lambda>first d_first h.
     and_then (read_at first h) (\<lambda>x h.
     and_then (construct_at d_first x h)
       (\<lambda>_. uninitialized_copy_n n (ptr_add first 1) (ptr_add d_first 1))))"

primrec uninitialized_move_n ::
  "'a elem_type \<Rightarrow> nat \<Rightarrow> ptr \<Rightarrow> ptr \<Rightarrow> 'a heap \<Rightarrow> (unit, 'a heap) outcome" where
  "uninitialized_move_n T 0 = (\<lambda>first d_first h. Done () h)"
| "uninitialized_move_n T (Suc n) = (\<lambda>first d_first h.
     and_then (move_from T first h) (\<lambda>x h.
     and_then (construct_at d_first x h)
       (\<lambda>_. uninitialized_move_n T n (ptr_add first 1) (ptr_add d_first 1))))"

primrec destroy_n :: "nat \<Rightarrow> ptr \<Rightarrow> 'a heap \<Rightarrow> (unit, 'a heap) outcome" where
  "destroy_n 0 = (\<lambda>first h. Done () h)"
| "destroy_n (Suc n) = (\<lambda>first h.
     and_then (destroy_at first h) (\<lambda>_. destroy_n n (ptr_add first 1)))"

text \<open>A range given by two pointers is walked until they meet; they never meet when
  the second is before the first.\<close>

definition range_length :: "ptr \<Rightarrow> ptr \<Rightarrow> nat option" where
  "range_length first lastp =
     (case distance first lastp of
        None \<Rightarrow> None
      | Some d \<Rightarrow> if 0 \<le> d then Some (nat d) else None)"

definition destroy :: "ptr \<Rightarrow> ptr \<Rightarrow> 'a heap \<Rightarrow> (unit, 'a heap) outcome" where
  "destroy first lastp h = and_then (must (range_length first lastp) h) (\<lambda>n. destroy_n n first)"

primrec move_n :: "'a elem_type \<Rightarrow> nat \<Rightarrow> ptr \<Rightarrow> ptr \<Rightarrow> 'a heap \<Rightarrow> (unit, 'a heap) outcome" where
  "move_n T 0 = (\<lambda>first d_first h. Done () h)"
| "move_n T (Suc n) = (\<lambda>first d_first h.
     and_then (move_from T first h) (\<lambda>x h.
     and_then (assign_at d_first x h)
       (\<lambda>_. move_n T n (ptr_add first 1) (ptr_add d_first 1))))"

text \<open>\<^verbatim>\<open>std::move(first, last, d_first)\<close>, the algorithm.\<close>

definition std_move :: "'a elem_type \<Rightarrow> ptr \<Rightarrow> ptr \<Rightarrow> ptr \<Rightarrow> 'a heap \<Rightarrow> (unit, 'a heap) outcome" where
  "std_move T first lastp d_first h =
     and_then (must (range_length first lastp) h) (\<lambda>n. move_n T n first d_first)"

primrec move_backward_n ::
  "'a elem_type \<Rightarrow> nat \<Rightarrow> ptr \<Rightarrow> ptr \<Rightarrow> 'a heap \<Rightarrow> (unit, 'a heap) outcome" where
  "move_backward_n T 0 = (\<lambda>lastp d_last h. Done () h)"
| "move_backward_n T (Suc n) = (\<lambda>lastp d_last h.
     and_then (must (ptr_sub lastp 1) h) (\<lambda>lastp h.
     and_then (must (ptr_sub d_last 1) h) (\<lambda>d_last h.
     and_then (move_from T lastp h) (\<lambda>x h.
     and_then (assign_at d_last x h)
       (\<lambda>_. move_backward_n T n lastp d_last)))))"

definition move_backward ::
  "'a elem_type \<Rightarrow> ptr \<Rightarrow> ptr \<Rightarrow> ptr \<Rightarrow> 'a heap \<Rightarrow> (unit, 'a heap) outcome" where
  "move_backward T first lastp d_last h =
     and_then (must (range_length first lastp) h) (\<lambda>n. move_backward_n T n lastp d_last)"

section \<open>RawMemory\<close>

record raw_memory =
  m_buffer :: ptr
  m_capacity :: nat

text \<open>
  A parameter that refers to an object of the class itself denotes either the object
  the member function runs on or another one; the guards \<^verbatim>\<open>this != &rhs\<close> test which.
\<close>

datatype 'o operand = Self | Other 'o

fun denote :: "'o operand \<Rightarrow> 'o \<Rightarrow> 'o" where
  "denote Self this = this"
| "denote (Other x) this = x"

definition Allocate :: "'a elem_type \<Rightarrow> nat \<Rightarrow> 'a heap \<Rightarrow> (ptr, 'a heap) outcome" where
  "Allocate T n h =
     (if n \<noteq> 0 then operator_new (sizeof T) (size_t_mul n (sizeof T)) h else Done nullptr h)"

definition Deallocate :: "ptr \<Rightarrow> 'a heap \<Rightarrow> (unit, 'a heap) outcome" where
  "Deallocate buf h = operator_delete buf h"

definition RawMemory_default :: raw_memory where
  "RawMemory_default = \<lparr>m_buffer = nullptr, m_capacity = 0\<rparr>"

definition RawMemory_ctor ::
  "'a elem_type \<Rightarrow> nat \<Rightarrow> 'a heap \<Rightarrow> (raw_memory, 'a heap) outcome" where
  "RawMemory_ctor T capacity h =
     and_then (Allocate T capacity h) (\<lambda>buf. Done \<lparr>m_buffer = buf, m_capacity = capacity\<rparr>)"

text \<open>The move constructor gives the new object and what is left of \<open>other\<close>.\<close>

definition RawMemory_move_ctor :: "raw_memory \<Rightarrow> raw_memory \<times> raw_memory" where
  "RawMemory_move_ctor other =
     (\<lparr>m_buffer = m_buffer other, m_capacity = m_capacity other\<rparr>,
      other\<lparr>m_buffer := nullptr, m_capacity := 0\<rparr>)"

text \<open>Move assignment overwrites \<^verbatim>\<open>buffer_\<close>; the block it pointed to is not released.\<close>

fun RawMemory_move_assign ::
  "raw_memory operand \<Rightarrow> raw_memory \<Rightarrow> raw_memory \<times> raw_memory operand" where
  "RawMemory_move_assign Self this = (this, Self)"
| "RawMemory_move_assign (Other rhs) this =
     (this\<lparr>m_buffer := m_buffer rhs, m_capacity := m_capacity rhs\<rparr>,
      Other (rhs\<lparr>m_buffer := nullptr, m_capacity := 0\<rparr>))"

definition RawMemory_dtor :: "raw_memory \<Rightarrow> 'a heap \<Rightarrow> (unit, 'a heap) outcome" where
  "RawMemory_dtor m h = Deallocate (m_buffer m) h"

text \<open>\<^verbatim>\<open>operator+\<close> and \<^verbatim>\<open>operator[]\<close> (the reference it returns is the slot's address),
  with their assertions.\<close>

definition RawMemory_plus :: "raw_memory \<Rightarrow> nat \<Rightarrow> ptr option" where
  "RawMemory_plus m offset =
     (if offset \<le> m_capacity m then Some (ptr_add (m_buffer m) offset) else None)"

definition RawMemory_index :: "raw_memory \<Rightarrow> nat \<Rightarrow> ptr option" where
  "RawMemory_index m index =
     (if index < m_capacity m then Some (ptr_add (m_buffer m) index) else None)"

definition RawMemory_Swap :: "raw_memory \<Rightarrow> raw_memory \<Rightarrow> raw_memory \<times> raw_memory" where
  "RawMemory_Swap this other =
     (this\<lparr>m_buffer := m_buffer other, m_capacity := m_capacity other\<rparr>,
      other\<lparr>m_buffer := m_buffer this, m_capacity := m_capacity this\<rparr>)"

definition GetAddress :: "raw_memory \<Rightarrow> ptr" where
  "GetAddress m = m_buffer m"

definition RawMemory_Capacity :: "raw_memory \<Rightarrow> nat" where
  "RawMemory_Capacity m = m_capacity m"

text \<open>
  \<^verbatim>\<open>std::exchange(obj, RawMemory<T>{...})\<close>: the result, \<open>obj\<close> afterwards and the
  temporary \<open>new_value\<close> afterwards (its destructor is the caller's).
\<close>

definition exchange_RawMemory ::
  "raw_memory \<Rightarrow> raw_memory \<Rightarrow> 'a heap \<Rightarrow> (raw_memory \<times> raw_memory \<times> raw_memory, 'a heap) outcome" where
  "exchange_RawMemory obj new_value h =
     (case RawMemory_move_ctor obj of (old_value, obj) \<Rightarrow>
      case RawMemory_move_assign (Other new_value) obj of (obj, new_value) \<Rightarrow>
      case RawMemory_move_ctor old_value of (result, old_value) \<Rightarrow>
        and_then (RawMemory_dtor old_value h) (\<lambda>_. Done (result, obj, denote new_value obj)))"

section \<open>Vector\<close>

record vector =
  m_data :: raw_memory
  m_size :: nat

text \<open>A member function runs on the object and the heap.\<close>

definition on_heap ::
  "('a heap \<Rightarrow> ('r, 'a heap) outcome) \<Rightarrow> vector \<times> 'a heap \<Rightarrow> ('r, vector \<times> 'a heap) outcome" where
  "on_heap m s =
     (case m (snd s) of
        Done r h \<Rightarrow> Done r (fst s, h)
      | Thrown h \<Rightarrow> Thrown (fst s, h)
      | Fault \<Rightarrow> Fault)"

definition vbegin :: "vector \<Rightarrow> ptr" where
  "vbegin v = GetAddress (m_data v)"

definition vend :: "vector \<Rightarrow> ptr" where
  "vend v = ptr_add (GetAddress (m_data v)) (m_size v)"

definition cbegin :: "vector \<Rightarrow> ptr" where
  "cbegin v = GetAddress (m_data v)"

definition cend :: "vector \<Rightarrow> ptr" where
  "cend v = ptr_add (GetAddress (m_data v)) (m_size v)"

definition Size :: "vector \<Rightarrow> nat" where
  "Size v = m_size v"

definition Capacity :: "vector \<Rightarrow> nat" where
  "Capacity v = RawMemory_Capacity (m_data v)"

definition Vector_default :: vector where
  "Vector_default = \<lparr>m_data = RawMemory_default, m_size = 0\<rparr>"

definition Vector_sized :: "'a elem_type \<Rightarrow> nat \<Rightarrow> 'a heap \<Rightarrow> (vector, 'a heap) outcome" where
  "Vector_sized T sz h =
     and_then (RawMemory_ctor T sz h) (\<lambda>d h.
     and_then (uninitialized_value_construct_n T sz (GetAddress d) h) (\<lambda>_.
     Done \<lparr>m_data = d, m_size = sz\<rparr>))"

definition Vector_copy :: "'a elem_type \<Rightarrow> vector \<Rightarrow> 'a heap \<Rightarrow> (vector, 'a heap) outcome" where
  "Vector_copy T other h =
     and_then (RawMemory_ctor T (m_size other) h) (\<lambda>d h.
     and_then (uninitialized_copy_n (m_size other) (GetAddress (m_data other)) (GetAddress d) h) (\<lambda>_.
     Done \<lparr>m_data = d, m_size = m_size other\<rparr>))"

text \<open>The move constructor gives the new vector and what is left of \<open>other\<close>.\<close>

definition Vector_move :: "vector \<Rightarrow> 'a heap \<Rightarrow> (vector \<times> vector, 'a heap) outcome" where
  "Vector_move other h =
     and_then (exchange_RawMemory (m_data other) RawMemory_default h) (\<lambda>(d, od, tmp) h.
     and_then (RawMemory_dtor tmp h) (\<lambda>_.
     Done (\<lparr>m_data = d, m_size = m_size other\<rparr>, \<lparr>m_data = od, m_size = 0\<rparr>)))"

text \<open>\<^verbatim>\<open>operator[]\<close>: the address of the element, with the assertions of both classes.\<close>

definition Vector_index :: "vector \<Rightarrow> nat \<Rightarrow> ptr option" where
  "Vector_index v index = (if index < m_size v then RawMemory_index (m_data v) index else None)"

definition Reserve :: "'a elem_type \<Rightarrow> nat \<Rightarrow> vector \<times> 'a heap \<Rightarrow> (unit, vector \<times> 'a heap) outcome" where
  "Reserve T new_capacity s =
     (if new_capacity \<le> RawMemory_Capacity (m_data (fst s)) then Done () s
      else
        and_then (on_heap (RawMemory_ctor T new_capacity) s) (\<lambda>new_data (v, h).
        and_then (on_heap
          (if relocate_by_move T
           then uninitialized_move_n T (m_size v) (GetAddress (m_data v)) (GetAddress new_data)
           else uninitialized_copy_n (m_size v) (GetAddress (m_data v)) (GetAddress new_data))
          (v, h)) (\<lambda>_ (v, h).
        and_then (on_heap (destroy_n (m_size v) (GetAddress (m_data v))) (v, h)) (\<lambda>_ (v, h).
        case RawMemory_Swap (m_data v) new_data of (d, new_data) \<Rightarrow>
          on_heap (RawMemory_dtor new_data) (v\<lparr>m_data := d\<rparr>, h)))))"

text \<open>\<^verbatim>\<open>Swap\<close> gives what is left of \<open>other\<close>, a distinct vector.\<close>

definition Swap :: "vector \<Rightarrow> vector \<times> 'a heap \<Rightarrow> (vector, vector \<times> 'a heap) outcome" where
  "Swap other s =
     (case s of (v, h) \<Rightarrow>
      case RawMemory_Swap (m_data v) (m_data other) of (d, od) \<Rightarrow>
        let temp_size = m_size v
        in Done (\<lparr>m_data = od, m_size = temp_size\<rparr>) (\<lparr>m_data = d, m_size = m_size other\<rparr>, h))"

definition Vector_dtor :: "vector \<Rightarrow> 'a heap \<Rightarrow> (unit, 'a heap) outcome" where
  "Vector_dtor v h =
     and_then (destroy (GetAddress (m_data v)) (ptr_add (GetAddress (m_data v)) (m_size v)) h) (\<lambda>_.
     RawMemory_dtor (m_data v))"

text \<open>The loop \<^verbatim>\<open>for (id = ...; id < ...; ++id) data_[id] = rhs.data_[id];\<close> with
  \<open>n\<close> iterations left.\<close>

primrec assign_elements ::
  "nat \<Rightarrow> raw_memory \<Rightarrow> raw_memory \<Rightarrow> nat \<Rightarrow> 'a heap \<Rightarrow> (unit, 'a heap) outcome" where
  "assign_elements 0 = (\<lambda>d rd id h. Done () h)"
| "assign_elements (Suc n) = (\<lambda>d rd id h.
     and_then (must (RawMemory_index rd id) h) (\<lambda>src h.
     and_then (read_at src h) (\<lambda>x h.
     and_then (must (RawMemory_index d id) h) (\<lambda>dst h.
     and_then (assign_at dst x h) (\<lambda>_.
     assign_elements n d rd (Suc id))))))"

fun copy_assign ::
  "'a elem_type \<Rightarrow> vector operand \<Rightarrow> vector \<times> 'a heap \<Rightarrow> (unit, vector \<times> 'a heap) outcome" where
  "copy_assign T Self s = Done () s"
| "copy_assign T (Other rhs) s =
     (if m_size rhs > RawMemory_Capacity (m_data (fst s))
      then
        and_then (on_heap (Vector_copy T rhs) s) (\<lambda>copy s.
        and_then (Swap copy s) (\<lambda>copy s.
        on_heap (Vector_dtor copy) s))
      else
        and_then
          (if m_size rhs < m_size (fst s)
           then
             let ts = size_t_sub (m_size (fst s)) (m_size rhs)
             in
               and_then (on_heap (assign_elements (m_size rhs) (m_data (fst s)) (m_data rhs) 0) s) (\<lambda>_ (v, h).
               on_heap (destroy_n ts (ptr_add (GetAddress (m_data v)) (m_size rhs))) (v, h))
           else
             let ts = size_t_sub (m_size rhs) (m_size (fst s))
             in
               and_then (on_heap (assign_elements (m_size (fst s)) (m_data (fst s)) (m_data rhs) 0) s) (\<lambda>_ (v, h).
               on_heap (uninitialized_copy_n ts (ptr_add (GetAddress (m_data v)) (m_size v))
                          (ptr_add (GetAddress (m_data v)) (m_size v))) (v, h)))
          (\<lambda>_ (v, h). Done () (v\<lparr>m_size := m_size rhs\<rparr>, h)))"

text \<open>Move assignment gives what is left of \<open>rhs\<close>.\<close>

fun move_assign ::
  "vector operand \<Rightarrow> vector \<times> 'a heap \<Rightarrow> (vector operand, vector \<times> 'a heap) outcome" where
  "move_assign Self s = Done Self s"
| "move_assign (Other rhs) s =
     and_then (on_heap (exchange_RawMemory (m_data rhs) RawMemory_default) s) (\<lambda>(ret, rd, tmp) (v, h).
     case RawMemory_move_assign (Other ret) (m_data v) of (d, ret) \<Rightarrow>
     and_then (on_heap (RawMemory_dtor (denote ret d)) (v\<lparr>m_data := d\<rparr>, h)) (\<lambda>_ s.
     and_then (on_heap (RawMemory_dtor tmp) s) (\<lambda>_ (v, h).
     Done (Other \<lparr>m_data = rd, m_size = 0\<rparr>) (v\<lparr>m_size := m_size rhs\<rparr>, h))))"

definition Resize :: "'a elem_type \<Rightarrow> nat \<Rightarrow> vector \<times> 'a heap \<Rightarrow> (unit, vector \<times> 'a heap) outcome" where
  "Resize T new_size s =
     and_then
       (if RawMemory_Capacity (m_data (fst s)) > new_size
        then on_heap (destroy_n (size_t_sub (m_size (fst s)) new_size)
                        (ptr_add (GetAddress (m_data (fst s))) new_size)) s
        else if RawMemory_Capacity (m_data (fst s)) < new_size
        then
          and_then (Reserve T new_size s) (\<lambda>_ (v, h).
          on_heap (uninitialized_value_construct_n T (size_t_sub new_size (m_size v))
                     (GetAddress (m_data v))) (v, h))
        else Done () s)
       (\<lambda>_ (v, h). Done () (v\<lparr>m_size := new_size\<rparr>, h))"

definition PopBack :: "vector \<times> 'a heap \<Rightarrow> (unit, vector \<times> 'a heap) outcome" where
  "PopBack s =
     and_then (must (RawMemory_index (m_data (fst s)) (size_t_sub (m_size (fst s)) 1)) s) (\<lambda>p s.
     and_then (on_heap (destroy_at p) s) (\<lambda>_ (v, h).
     Done () (v\<lparr>m_size := size_t_sub (m_size v) 1\<rparr>, h)))"

definition Emplace ::
  "'a elem_type \<Rightarrow> ptr \<Rightarrow> 'a args \<Rightarrow> vector \<times> 'a heap \<Rightarrow> (ptr, vector \<times> 'a heap) outcome" where
  "Emplace T pos a s =
     and_then (must (distance (cbegin (fst s)) pos) s) (\<lambda>d (v, h).
     let begin1 = to_size_t d
     in
       and_then
         (if m_size v = RawMemory_Capacity (m_data v)
          then
            let new_size = (if m_size v = 0 then 1 else m_size v * 2)
            in
              and_then (must (distance pos (cend v)) (v, h)) (\<lambda>d (v, h).
              let end1 = to_size_t d
              in
                and_then (on_heap (RawMemory_ctor T new_size) (v, h)) (\<lambda>tv (v, h).
                and_then (on_heap (placement_new T (ptr_add (GetAddress tv) begin1) a) (v, h)) (\<lambda>_ (v, h).
                and_then (on_heap
                  (if relocate_by_move T
                   then (\<lambda>h.
                     and_then (uninitialized_move_n T begin1 (vbegin v) (GetAddress tv) h) (\<lambda>_.
                     uninitialized_move_n T end1 (ptr_add (vbegin v) begin1)
                       (ptr_add (ptr_add (GetAddress tv) begin1) 1)))
                   else (\<lambda>h.
                     and_then (uninitialized_copy_n begin1 (vbegin v) (GetAddress tv) h) (\<lambda>_.
                     uninitialized_copy_n end1 (ptr_add (vbegin v) begin1)
                       (ptr_add (ptr_add (GetAddress tv) begin1) 1))))
                  (v, h)) (\<lambda>_ (v, h).
                and_then (on_heap (destroy_n (m_size v) (vbegin v)) (v, h)) (\<lambda>_ (v, h).
                case RawMemory_Swap (m_data v) tv of (d, tv) \<Rightarrow>
                  on_heap (RawMemory_dtor tv) (v\<lparr>m_data := d\<rparr>, h))))))
          else if m_size v \<noteq> begin1
          then
            and_then (must (ptr_sub (vend v) 1) (v, h)) (\<lambda>back (v, h).
            and_then (on_heap (\<lambda>h. and_then (move_from T back h) (construct_at (vend v))) (v, h)) (\<lambda>_ (v, h).
            and_then (on_heap (move_backward T (ptr_add (vbegin v) begin1) back (vend v)) (v, h)) (\<lambda>_ (v, h).
            and_then (on_heap (construct_T T a) (v, h)) (\<lambda>x (v, h).
            and_then (must (RawMemory_index (m_data v) begin1) (v, h)) (\<lambda>p (v, h).
            on_heap (assign_at p x) (v, h))))))
          else on_heap (placement_new T (ptr_add (vbegin v) begin1) a) (v, h))
         (\<lambda>_ (v, h).
            let v = v\<lparr>m_size := m_size v + 1\<rparr>
            in Done (ptr_add (vbegin v) begin1) (v, h)))"

text \<open>\<^verbatim>\<open>EmplaceBack\<close> returns a reference to the new element: its address.\<close>

definition EmplaceBack ::
  "'a elem_type \<Rightarrow> 'a args \<Rightarrow> vector \<times> 'a heap \<Rightarrow> (ptr, vector \<times> 'a heap) outcome" where
  "EmplaceBack T a s = Emplace T (ptr_add (vbegin (fst s)) (m_size (fst s))) a s"

text \<open>The two overloads of \<^verbatim>\<open>PushBack\<close> and of \<^verbatim>\<open>Insert\<close>: \<^verbatim>\<open>const T&\<close> and \<^verbatim>\<open>T&&\<close>.\<close>

definition PushBack ::
  "'a elem_type \<Rightarrow> 'a cref \<Rightarrow> vector \<times> 'a heap \<Rightarrow> (unit, vector \<times> 'a heap) outcome" where
  "PushBack T value s = and_then (EmplaceBack T (ByConstRef value) s) (\<lambda>_. Done ())"

definition PushBack_rvalue ::
  "'a elem_type \<Rightarrow> 'a cref \<Rightarrow> vector \<times> 'a heap \<Rightarrow> (unit, vector \<times> 'a heap) outcome" where
  "PushBack_rvalue T value s = and_then (EmplaceBack T (ByRvalue value) s) (\<lambda>_. Done ())"

definition Insert ::
  "'a elem_type \<Rightarrow> ptr \<Rightarrow> 'a cref \<Rightarrow> vector \<times> 'a heap \<Rightarrow> (ptr, vector \<times> 'a heap) outcome" where
  "Insert T pos value s = Emplace T pos (ByConstRef value) s"

definition Insert_rvalue ::
  "'a elem_type \<Rightarrow> ptr \<Rightarrow> 'a cref \<Rightarrow> vector \<times> 'a heap \<Rightarrow> (ptr, vector \<times> 'a heap) outcome" where
  "Insert_rvalue T pos value s = Emplace T pos (ByRvalue value) s"

definition Erase :: "'a elem_type \<Rightarrow> ptr \<Rightarrow> vector \<times> 'a heap \<Rightarrow> (ptr, vector \<times> 'a heap) outcome" where
  "Erase T pos s =
     and_then (must (distance (cbegin (fst s)) pos) s) (\<lambda>d (v, h).
     let pos1 = to_size_t d
     in
       and_then (on_heap (std_move T (ptr_add (ptr_add (vbegin v) pos1) 1) (vend v)
                            (ptr_add (vbegin v) pos1)) (v, h)) (\<lambda>_ (v, h).
       and_then (must (ptr_sub (vend v) 1) (v, h)) (\<lambda>back (v, h).
       and_then (on_heap (destroy_n 1 back) (v, h)) (\<lambda>_ (v, h).
       let v = v\<lparr>m_size := size_t_sub (m_size v) 1\<rparr>
       in Done (ptr_add (vbegin v) pos1) (v, h)))))"

section \<open>Observations\<close>

text \<open>The slots of the vector's block, and the slots of its live range \<open>[0, Size)\<close>.\<close>

definition slots_of :: "vector \<times> 'a heap \<Rightarrow> 'a slot list" where
  "slots_of s =
     (case blk (m_buffer (m_data (fst s))) of
        None \<Rightarrow> []
      | Some b \<Rightarrow> (case blocks (snd s) b of None \<Rightarrow> [] | Some sl \<Rightarrow> sl))"

definition elements :: "vector \<times> 'a heap \<Rightarrow> 'a slot list" where
  "elements s = take (m_size (fst s)) (slots_of s)"

fun is_live :: "'a slot \<Rightarrow> bool" where
  "is_live (Live x) = True"
| "is_live Raw = False"

fun is_raw :: "'a slot \<Rightarrow> bool" where
  "is_raw Raw = True"
| "is_raw (Live x) = False"

text \<open>
  The state invariant of the dynamic array: the size does not exceed the capacity, the
  block has exactly \<open>Capacity\<close> slots, the slots \<open>[0, Size)\<close> hold live objects and
  the slots \<open>[Size, Capacity)\<close> are raw storage. The buffer is the null pointer
  (capacity 0) or the start of a block that the allocator has handed out.
\<close>

definition vec_inv :: "vector \<times> 'a heap \<Rightarrow> bool" where
  "vec_inv s =
     (case s of (v, h) \<Rightarrow>
        m_size v \<le> m_capacity (m_data v) \<and>
        (case blk (m_buffer (m_data v)) of
           None \<Rightarrow> m_buffer (m_data v) = nullptr \<and> m_capacity (m_data v) = 0
         | Some b \<Rightarrow>
             off (m_buffer (m_data v)) = 0 \<and> b < next_block h \<and>
             (case blocks h b of
                None \<Rightarrow> False
              | Some sl \<Rightarrow>
                  length sl = m_capacity (m_data v) \<and>
                  list_all is_live (take (m_size v) sl) \<and>
                  list_all is_raw (drop (m_size v) sl))))"

text \<open>What an outcome shows of the state it ends in.\<close>

fun observe :: "('s \<Rightarrow> 'x) \<Rightarrow> ('r, 's) outcome \<Rightarrow> ('r, 'x) outcome" where
  "observe f (Done r s) = Done r (f s)"
| "observe f (Thrown s) = Thrown (f s)"
| "observe f Fault = Fault"

text \<open>The heap before any allocation, with \<open>A\<close> units available, and the element
  type \<^verbatim>\<open>int\<close>: value-initialised to 0, unchanged by a move, relocated by move, of
  four bytes.\<close>

definition empty_heap :: "nat \<Rightarrow> 'a heap" where
  "empty_heap A = \<lparr>blocks = (\<lambda>_. None), next_block = 0, avail = A\<rparr>"

definition int_T :: "int elem_type" where
  "int_T = \<lparr>value_init = 0, moved_from = (\<lambda>x. x), relocate_by_move = True, sizeof = 4\<rparr>"

text \<open>The value an argument carries when it refers to an object outside the blocks.\<close>

fun external :: "'a args \<Rightarrow> 'a option" where
  "external (ByConstRef (Ext x)) = Some x"
| "external (ByRvalue (Ext x)) = Some x"
| "external (ByConstRef (At p)) = None"
| "external (ByRvalue (At p)) = None"

text \<open>
  An append is a call of \<^verbatim>\<open>PushBack(const T&)\<close>, of \<^verbatim>\<open>PushBack(T&&)\<close> or of
  \<^verbatim>\<open>EmplaceBack\<close> (whose result the caller drops); \<open>append_all\<close> runs a sequence of
  them, and \<open>appended\<close> is the value a call appends when its argument refers to an
  object outside the blocks.
\<close>

datatype 'a append_call =
  By_PushBack "'a cref" | By_PushBack_rvalue "'a cref" | By_EmplaceBack "'a args"

fun append_one ::
  "'a elem_type \<Rightarrow> 'a append_call \<Rightarrow> vector \<times> 'a heap \<Rightarrow> (unit, vector \<times> 'a heap) outcome" where
  "append_one T (By_PushBack value) s = PushBack T value s"
| "append_one T (By_PushBack_rvalue value) s = PushBack_rvalue T value s"
| "append_one T (By_EmplaceBack a) s = and_then (EmplaceBack T a s) (\<lambda>_. Done ())"

primrec append_all ::
  "'a elem_type \<Rightarrow> 'a append_call list \<Rightarrow> vector \<times> 'a heap \<Rightarrow>
   (unit, vector \<times> 'a heap) outcome" where
  "append_all T [] = (\<lambda>s. Done () s)"
| "append_all T (c # cs) = (\<lambda>s. and_then (append_one T c s) (\<lambda>_. append_all T cs))"

fun appended :: "'a append_call \<Rightarrow> 'a option" where
  "appended (By_PushBack value) = external (ByConstRef value)"
| "appended (By_PushBack_rvalue value) = external (ByRvalue value)"
| "appended (By_EmplaceBack a) = external a"

section \<open>Proof vocabulary\<close>

text \<open>
  \<open>holds s b xs k\<close>: the vector of state \<open>s\<close> owns block \<open>b\<close>, whose slots are the live
  objects \<open>xs\<close> followed by \<open>k\<close> raw slots. \<open>state_of b xs k A\<close> is the simplest such
  state, in a heap with nothing else allocated and \<open>A\<close> units available.
\<close>

definition holds :: "vector \<times> 'a heap \<Rightarrow> nat \<Rightarrow> 'a list \<Rightarrow> nat \<Rightarrow> bool" where
  "holds s b xs k =
     (fst s = \<lparr>m_data = \<lparr>m_buffer = Ptr (Some b) 0, m_capacity = length xs + k\<rparr>,
               m_size = length xs\<rparr> \<and>
      blocks (snd s) b = Some (map Live xs @ replicate k Raw) \<and> b < next_block (snd s))"

definition state_of :: "nat \<Rightarrow> 'a list \<Rightarrow> nat \<Rightarrow> nat \<Rightarrow> vector \<times> 'a heap" where
  "state_of b xs k A =
     (\<lparr>m_data = \<lparr>m_buffer = Ptr (Some b) 0, m_capacity = length xs + k\<rparr>, m_size = length xs\<rparr>,
      \<lparr>blocks = (\<lambda>_. None)(b \<mapsto> map Live xs @ replicate k Raw), next_block = Suc b, avail = A\<rparr>)"

text \<open>
  \<open>fits T n\<close>: the byte count of \<open>n\<close> objects of \<^verbatim>\<open>T\<close> is representable in \<^verbatim>\<open>size_t\<close>, so
  that \<^verbatim>\<open>n * sizeof(T)\<close> does not wrap around (and \<^verbatim>\<open>sizeof(T)\<close> is not 0, as for every
  object type).
\<close>

definition fits :: "'a elem_type \<Rightarrow> nat \<Rightarrow> bool" where
  "fits T n = (0 < sizeof T \<and> n * sizeof T < 2 ^ 64)"

text \<open>What a move leaves in a slot.\<close>

fun residue :: "'a elem_type \<Rightarrow> 'a slot \<Rightarrow> 'a slot" where
  "residue T (Live x) = Live (moved_from T x)"
| "residue T Raw = Raw"



section \<open>Callers\<close>

text \<open>The size and the capacity of the vector of a state.\<close>

definition size_of :: "vector \<times> 'a heap \<Rightarrow> nat" where
  "size_of s = Size (fst s)"

definition capacity_of :: "vector \<times> 'a heap \<Rightarrow> nat" where
  "capacity_of s = Capacity (fst s)"

text \<open>The call \<^verbatim>\<open>v.Insert(v.begin() + i, v[j])\<close>: the value is passed as a reference to
  the vector's own element.\<close>

definition Insert_own ::
  "'a elem_type \<Rightarrow> nat \<Rightarrow> nat \<Rightarrow> vector \<times> 'a heap \<Rightarrow> (ptr, vector \<times> 'a heap) outcome" where
  "Insert_own T i j s =
     and_then (must (Vector_index (fst s) j) s) (\<lambda>elem s.
     Insert T (ptr_add (vbegin (fst s)) i) (At elem) s)"

text \<open>
  A second vector next to the one of the state: it is default-constructed, \<open>fill\<close>
  runs on it in the same heap, and the program goes on with it as \<open>other\<close>.
\<close>

definition with_other ::
  "(vector \<times> 'a heap \<Rightarrow> ('r, vector \<times> 'a heap) outcome) \<Rightarrow>
   (vector \<Rightarrow> vector \<times> 'a heap \<Rightarrow> ('q, vector \<times> 'a heap) outcome) \<Rightarrow>
   vector \<times> 'a heap \<Rightarrow> ('q, vector \<times> 'a heap) outcome" where
  "with_other fill k s =
     (case fill (Vector_default, snd s) of
        Done r (other, h) \<Rightarrow> k other (fst s, h)
      | Thrown (other, h) \<Rightarrow> Thrown (fst s, h)
      | Fault \<Rightarrow> Fault)"


text \<open>Both vectors go out of scope: the destructors run, \<open>other\<close> first.\<close>

definition destroy_both ::
  "vector operand \<Rightarrow> vector \<times> 'a heap \<Rightarrow> (unit, vector \<times> 'a heap) outcome" where
  "destroy_both other s =
     (case other of
        Self \<Rightarrow> on_heap (Vector_dtor (fst s)) s
      | Other b \<Rightarrow>
          and_then (on_heap (Vector_dtor b) s) (\<lambda>_ s. on_heap (Vector_dtor (fst s)) s))"

text \<open>Every block the allocator has handed out, and what is available.\<close>

definition heap_summary :: "vector \<times> 'a heap \<Rightarrow> 'a slot list option list \<times> nat" where
  "heap_summary s = (map (blocks (snd s)) [0..<next_block (snd s)], avail (snd s))"

text \<open>The vectors of the examples, built with \<^verbatim>\<open>PushBack\<close> in a heap of 100 units.\<close>

definition ints :: "int list \<Rightarrow> vector \<times> int heap \<Rightarrow> (unit, vector \<times> int heap) outcome" where
  "ints xs = append_all int_T (map (\<lambda>x. By_PushBack (Ext x)) xs)"

definition vector_of :: "int list \<Rightarrow> (unit, vector \<times> int heap) outcome" where
  "vector_of xs = ints xs (Vector_default, empty_heap 100)"

section \<open>Slots and the invariant\<close>

lemma all_live_map: "list_all is_live ys \<Longrightarrow> \<exists>xs. ys = map Live xs"
proof (induction ys)
  case Nil
  then show ?case by simp
next
  case (Cons c ys)
  then obtain xs where "ys = map Live xs" by auto
  moreover from Cons.prems obtain x where "c = Live x" by (cases c) auto
  ultimately have "c # ys = map Live (x # xs)" by simp
  then show ?case by (rule exI)
qed

lemma all_raw_replicate: "list_all is_raw ys \<Longrightarrow> ys = replicate (length ys) Raw"
  by (induction ys) (auto elim: is_raw.elims)

lemma all_live_map_iff [simp]: "list_all is_live (map Live xs)"
  by (induction xs) auto

lemma all_raw_replicate_iff [simp]: "list_all is_raw (replicate k Raw)"
  by (induction k) auto

lemma vec_inv_cases:
  assumes "vec_inv (v, h)"
  shows "v = Vector_default \<or> (\<exists>b xs k. holds (v, h) b xs k)"
proof (cases "blk (m_buffer (m_data v))")
  case None
  with assms have "m_buffer (m_data v) = nullptr" "m_capacity (m_data v) = 0" "m_size v = 0"
    by (auto simp: vec_inv_def)
  then have "v = Vector_default"
    by (cases v, cases "m_data v") (auto simp: Vector_default_def RawMemory_default_def)
  then show ?thesis by simp
next
  case (Some b)
  with assms obtain sl where sl: "blocks h b = Some sl" "off (m_buffer (m_data v)) = 0"
    "b < next_block h" "length sl = m_capacity (m_data v)"
    "list_all is_live (take (m_size v) sl)" "list_all is_raw (drop (m_size v) sl)"
    "m_size v \<le> m_capacity (m_data v)"
    by (auto simp: vec_inv_def split: option.splits)
  from sl(5) obtain xs where xs: "take (m_size v) sl = map Live xs"
    using all_live_map by blast
  have len: "length xs = m_size v"
    using arg_cong[OF xs, of length] sl(4,7) by simp
  have "drop (m_size v) sl = replicate (m_capacity (m_data v) - m_size v) Raw"
    using all_raw_replicate[OF sl(6)] sl(4) by simp
  then have "sl = map Live xs @ replicate (m_capacity (m_data v) - m_size v) Raw"
    using xs append_take_drop_id[of "m_size v" sl] by simp
  moreover have "m_buffer (m_data v) = Ptr (Some b) 0"
    using Some sl(2) by (cases "m_buffer (m_data v)") auto
  ultimately have "holds (v, h) b xs (m_capacity (m_data v) - m_size v)"
    using sl len by (cases v, cases "m_data v") (auto simp: holds_def)
  then show ?thesis by blast
qed

lemma holds_inv: "holds s b xs k \<Longrightarrow> vec_inv s"
  by (cases s) (auto simp: holds_def vec_inv_def)

lemma default_inv: "vec_inv (Vector_default, h)"
  by (simp add: vec_inv_def Vector_default_def RawMemory_default_def nullptr_def)

lemma holds_elements:
  "holds s b xs k \<Longrightarrow> elements s = map Live xs \<and> slots_of s = map Live xs @ replicate k Raw"
  by (cases s) (auto simp: holds_def elements_def slots_of_def)

lemma holds_state_of: "holds (state_of b xs k A) b xs k"
  by (simp add: holds_def state_of_def)

lemma cell_block:
  "blocks h b = Some sl \<Longrightarrow>
   cell h (Ptr (Some b) i) = (if i < length sl then Some (sl ! i) else None)"
  by (simp add: cell_def)

lemma put_block:
  "blocks h b = Some sl \<Longrightarrow>
   put (Ptr (Some b) i) c h = h\<lparr>blocks := (blocks h)(b \<mapsto> sl[i := c])\<rparr>"
  by (simp add: put_def)


lemma size_t_mul_fits: "fits T n \<Longrightarrow> size_t_mul n (sizeof T) = n * sizeof T"
proof -
  assume "fits T n"
  then have "int (n * sizeof T) < 2 ^ 64" unfolding fits_def
    by (metis of_nat_less_iff of_nat_numeral of_nat_power)
  then have "(int n * int (sizeof T)) mod 2 ^ 64 = int (n * sizeof T)" by simp
  then show ?thesis unfolding size_t_mul_def by (metis nat_int)
qed

lemma RawMemory_ctor_fits:
  assumes "fits T n"
  shows "RawMemory_ctor T n h =
     (if n = 0 then Done \<lparr>m_buffer = nullptr, m_capacity = 0\<rparr> h
      else if n \<le> avail h then
        Done \<lparr>m_buffer = Ptr (Some (next_block h)) 0, m_capacity = n\<rparr>
          (h\<lparr>blocks := (blocks h)(next_block h \<mapsto> replicate n Raw),
             next_block := Suc (next_block h), avail := avail h - n\<rparr>)
      else Thrown h)"
  using assms
  by (simp add: RawMemory_ctor_def Allocate_def operator_new_def size_t_mul_fits Let_def)
    (simp add: fits_def)

lemma fits_mono: "fits T n \<Longrightarrow> m \<le> n \<Longrightarrow> fits T m"
  unfolding fits_def
  by (metis le_less_trans mult_le_mono1)
section \<open>The loops, block by block\<close>

lemma ptr_add_Ptr [simp]: "ptr_add (Ptr b i) n = Ptr b (i + n)"
  by (simp add: ptr_add_def)

lemma heap_blocks_same: "blocks h b = Some sl \<Longrightarrow> h\<lparr>blocks := (blocks h)(b \<mapsto> sl)\<rparr> = h"
proof -
  assume "blocks h b = Some sl"
  then have "(blocks h)(b \<mapsto> sl) = blocks h" by (rule fun_upd_idem)
  then show ?thesis by simp
qed

lemma upd2_absorb:
  "b \<noteq> b' \<Longrightarrow> (f(b \<mapsto> s1, b' \<mapsto> d1))(b \<mapsto> A, b' \<mapsto> B) = f(b \<mapsto> A, b' \<mapsto> B)"
  by (auto simp: fun_eq_iff)

lemma take_Suc_drop_live:
  "list_all is_live (take (Suc n) (drop i sl)) \<Longrightarrow> i < length sl \<Longrightarrow>
   (\<exists>x. sl ! i = Live x) \<and> list_all is_live (take n (drop (Suc i) sl))"
  by (cases "sl ! i") (auto simp: take_Suc_conv_app_nth Cons_nth_drop_Suc[symmetric])

lemma destroy_n_block:
  "blocks h b = Some sl \<Longrightarrow> i + n \<le> length sl \<Longrightarrow> list_all is_live (take n (drop i sl)) \<Longrightarrow>
   destroy_n n (Ptr (Some b) i) h =
     Done () (h\<lparr>blocks := (blocks h)(b \<mapsto> take i sl @ replicate n Raw @ drop (i + n) sl)\<rparr>)"
proof (induction n arbitrary: i sl h)
  case 0
  have l: "take i sl @ replicate 0 Raw @ drop (i + 0) sl = sl" by simp
  have "destroy_n 0 (Ptr (Some b) i) h = Done () h" by simp
  then show ?case unfolding l heap_blocks_same[OF 0(1)] .
next
  case (Suc n)
  from Suc.prems have i: "i < length sl" by simp
  from take_Suc_drop_live[OF Suc.prems(3) i] obtain x where x: "sl ! i = Live x"
    and rest: "list_all is_live (take n (drop (Suc i) sl))" by blast
  let ?h1 = "h\<lparr>blocks := (blocks h)(b \<mapsto> sl[i := Raw])\<rparr>"
  have step: "destroy_at (Ptr (Some b) i) h = Done () ?h1"
    using Suc.prems(1) i x by (simp add: destroy_at_def cell_block put_block)
  have b1: "blocks ?h1 b = Some (sl[i := Raw])" by simp
  have rest1: "list_all is_live (take n (drop (Suc i) (sl[i := Raw])))"
    using rest by simp
  have len1: "Suc i + n \<le> length (sl[i := Raw])" using Suc.prems(2) by simp
  have eq: "take (Suc i) (sl[i := Raw]) @ replicate n Raw @ drop (Suc i + n) (sl[i := Raw])
      = take i sl @ replicate (Suc n) Raw @ drop (i + Suc n) sl"
    using i by (simp add: take_Suc_conv_app_nth)
  have "destroy_n (Suc n) (Ptr (Some b) i) h = destroy_n n (Ptr (Some b) (Suc i)) ?h1"
    using step by simp
  also have "\<dots> = Done () (?h1\<lparr>blocks := (blocks ?h1)
      (b \<mapsto> take i sl @ replicate (Suc n) Raw @ drop (i + Suc n) sl)\<rparr>)"
    using Suc.IH[OF b1 len1 rest1] unfolding eq .
  also have "?h1\<lparr>blocks := (blocks ?h1)
      (b \<mapsto> take i sl @ replicate (Suc n) Raw @ drop (i + Suc n) sl)\<rparr> =
      h\<lparr>blocks := (blocks h)(b \<mapsto> take i sl @ replicate (Suc n) Raw @ drop (i + Suc n) sl)\<rparr>"
    by simp
  finally show ?case .
qed

lemma uninitialized_copy_n_blocks:
  "blocks h b = Some sl \<Longrightarrow> blocks h b' = Some dl \<Longrightarrow> b \<noteq> b' \<Longrightarrow>
   i + n \<le> length sl \<Longrightarrow> j + n \<le> length dl \<Longrightarrow> list_all is_live (take n (drop i sl)) \<Longrightarrow>
   uninitialized_copy_n n (Ptr (Some b) i) (Ptr (Some b') j) h =
     Done () (h\<lparr>blocks := (blocks h)(b' \<mapsto> take j dl @ take n (drop i sl) @ drop (j + n) dl)\<rparr>)"
proof (induction n arbitrary: i j dl h)
  case 0
  have l: "take j dl @ take 0 (drop i sl) @ drop (j + 0) dl = dl" by simp
  have "uninitialized_copy_n 0 (Ptr (Some b) i) (Ptr (Some b') j) h = Done () h" by simp
  then show ?case unfolding l heap_blocks_same[OF 0(2)] .
next
  case (Suc n)
  from Suc.prems have i: "i < length sl" and j: "j < length dl" by simp_all
  from take_Suc_drop_live[OF Suc.prems(6) i] obtain x where x: "sl ! i = Live x"
    and rest: "list_all is_live (take n (drop (Suc i) sl))" by blast
  let ?h1 = "h\<lparr>blocks := (blocks h)(b' \<mapsto> dl[j := Live x])\<rparr>"
  have rd: "read_at (Ptr (Some b) i) h = Done x h"
    using Suc.prems(1) i x by (simp add: read_at_def cell_block)
  have wr: "construct_at (Ptr (Some b') j) x h = Done () ?h1"
    using Suc.prems(2) j by (simp add: construct_at_def cell_block put_block)
  have b1: "blocks ?h1 b = Some sl" "blocks ?h1 b' = Some (dl[j := Live x])"
    using Suc.prems(1,3) by simp_all
  have len: "Suc i + n \<le> length sl" "Suc j + n \<le> length (dl[j := Live x])"
    using Suc.prems(4,5) by simp_all
  have eq: "take (Suc j) (dl[j := Live x]) @ take n (drop (Suc i) sl) @ drop (Suc j + n) (dl[j := Live x])
      = take j dl @ take (Suc n) (drop i sl) @ drop (j + Suc n) dl"
    using i j x by (simp add: take_Suc_conv_app_nth Cons_nth_drop_Suc[symmetric])
  have "uninitialized_copy_n (Suc n) (Ptr (Some b) i) (Ptr (Some b') j) h =
      uninitialized_copy_n n (Ptr (Some b) (Suc i)) (Ptr (Some b') (Suc j)) ?h1"
    using rd wr by simp
  also have "\<dots> = Done () (?h1\<lparr>blocks := (blocks ?h1)
      (b' \<mapsto> take j dl @ take (Suc n) (drop i sl) @ drop (j + Suc n) dl)\<rparr>)"
    using Suc.IH[OF b1 Suc.prems(3) len rest] unfolding eq .
  also have "?h1\<lparr>blocks := (blocks ?h1)
      (b' \<mapsto> take j dl @ take (Suc n) (drop i sl) @ drop (j + Suc n) dl)\<rparr> =
      h\<lparr>blocks := (blocks h)(b' \<mapsto> take j dl @ take (Suc n) (drop i sl) @ drop (j + Suc n) dl)\<rparr>"
    by simp
  finally show ?case .
qed

lemma uninitialized_move_n_blocks:
  "blocks h b = Some sl \<Longrightarrow> blocks h b' = Some dl \<Longrightarrow> b \<noteq> b' \<Longrightarrow>
   i + n \<le> length sl \<Longrightarrow> j + n \<le> length dl \<Longrightarrow> list_all is_live (take n (drop i sl)) \<Longrightarrow>
   uninitialized_move_n T n (Ptr (Some b) i) (Ptr (Some b') j) h =
     Done () (h\<lparr>blocks := (blocks h)
        (b \<mapsto> take i sl @ map (residue T) (take n (drop i sl)) @ drop (i + n) sl,
         b' \<mapsto> take j dl @ take n (drop i sl) @ drop (j + n) dl)\<rparr>)"
proof (induction n arbitrary: i j sl dl h)
  case 0
  have l: "take j dl @ take 0 (drop i sl) @ drop (j + 0) dl = dl"
    "take i sl @ map (residue T) (take 0 (drop i sl)) @ drop (i + 0) sl = sl" by simp_all
  have f: "(blocks h)(b \<mapsto> sl, b' \<mapsto> dl) = blocks h"
    using 0(1,2) by (auto simp: fun_eq_iff)
  have "uninitialized_move_n T 0 (Ptr (Some b) i) (Ptr (Some b') j) h = Done () h" by simp
  then show ?case unfolding l f by simp
next
  case (Suc n)
  from Suc.prems have i: "i < length sl" and j: "j < length dl" by simp_all
  from take_Suc_drop_live[OF Suc.prems(6) i] obtain x where x: "sl ! i = Live x"
    and rest: "list_all is_live (take n (drop (Suc i) sl))" by blast
  let ?sl1 = "sl[i := Live (moved_from T x)]"
  let ?dl1 = "dl[j := Live x]"
  let ?h0 = "h\<lparr>blocks := (blocks h)(b \<mapsto> ?sl1)\<rparr>"
  let ?h1 = "h\<lparr>blocks := (blocks h)(b \<mapsto> ?sl1, b' \<mapsto> ?dl1)\<rparr>"
  have rd: "move_from T (Ptr (Some b) i) h = Done x ?h0"
    using Suc.prems(1) i x by (simp add: move_from_def cell_block put_block)
  have wr: "construct_at (Ptr (Some b') j) x ?h0 = Done () ?h1"
    using Suc.prems(2,3) j by (simp add: construct_at_def cell_block put_block)
  have b1: "blocks ?h1 b = Some ?sl1" "blocks ?h1 b' = Some ?dl1"
    using Suc.prems(3) by simp_all
  have len: "Suc i + n \<le> length ?sl1" "Suc j + n \<le> length ?dl1"
    using Suc.prems(4,5) by simp_all
  have rest1: "list_all is_live (take n (drop (Suc i) ?sl1))" using rest by simp
  have eq1: "take (Suc j) ?dl1 @ take n (drop (Suc i) ?sl1) @ drop (Suc j + n) ?dl1
      = take j dl @ take (Suc n) (drop i sl) @ drop (j + Suc n) dl"
    using i j x by (simp add: take_Suc_conv_app_nth Cons_nth_drop_Suc[symmetric])
  have eq2: "take (Suc i) ?sl1 @ map (residue T) (take n (drop (Suc i) ?sl1)) @ drop (Suc i + n) ?sl1
      = take i sl @ map (residue T) (take (Suc n) (drop i sl)) @ drop (i + Suc n) sl"
    using i x by (simp add: take_Suc_conv_app_nth Cons_nth_drop_Suc[symmetric])
  have "uninitialized_move_n T (Suc n) (Ptr (Some b) i) (Ptr (Some b') j) h =
      uninitialized_move_n T n (Ptr (Some b) (Suc i)) (Ptr (Some b') (Suc j)) ?h1"
    using rd wr by simp
  also have "\<dots> = Done () (?h1\<lparr>blocks := (blocks ?h1)
        (b \<mapsto> take i sl @ map (residue T) (take (Suc n) (drop i sl)) @ drop (i + Suc n) sl,
         b' \<mapsto> take j dl @ take (Suc n) (drop i sl) @ drop (j + Suc n) dl)\<rparr>)"
    using Suc.IH[OF b1 Suc.prems(3) len rest1] unfolding eq1 eq2 .
  also have "?h1\<lparr>blocks := (blocks ?h1)
        (b \<mapsto> take i sl @ map (residue T) (take (Suc n) (drop i sl)) @ drop (i + Suc n) sl,
         b' \<mapsto> take j dl @ take (Suc n) (drop i sl) @ drop (j + Suc n) dl)\<rparr> =
      h\<lparr>blocks := (blocks h)
        (b \<mapsto> take i sl @ map (residue T) (take (Suc n) (drop i sl)) @ drop (i + Suc n) sl,
         b' \<mapsto> take j dl @ take (Suc n) (drop i sl) @ drop (j + Suc n) dl)\<rparr>"
    using Suc.prems(3) by (simp add: upd2_absorb)
  finally show ?case .
qed

lemma move_n_left:
  "blocks h b = Some sl \<Longrightarrow> Suc (k + m) \<le> length sl \<Longrightarrow>
   list_all is_live (take (Suc m) (drop k sl)) \<Longrightarrow>
   move_n T m (Ptr (Some b) (Suc k)) (Ptr (Some b) k) h =
     Done () (h\<lparr>blocks := (blocks h)
       (b \<mapsto> take k sl @ take m (drop (Suc k) sl) @
             [if m = 0 then sl ! k else residue T (sl ! (k + m))] @ drop (Suc (k + m)) sl)\<rparr>)"
proof (induction m arbitrary: k sl h)
  case 0
  have l: "take k sl @ take 0 (drop (Suc k) sl) @
      [if (0::nat) = 0 then sl ! k else residue T (sl ! (k + 0))] @ drop (Suc (k + 0)) sl = sl"
    using 0(2) by (simp add: Cons_nth_drop_Suc)
  have "move_n T 0 (Ptr (Some b) (Suc k)) (Ptr (Some b) k) h = Done () h" by simp
  then show ?case unfolding l heap_blocks_same[OF 0(1)] .
next
  case (Suc m)
  from Suc.prems have k: "k < length sl" and k1: "Suc k < length sl" by simp_all
  from take_Suc_drop_live[OF Suc.prems(3) k] obtain y where y: "sl ! k = Live y"
    and rest: "list_all is_live (take (Suc m) (drop (Suc k) sl))" by blast
  from take_Suc_drop_live[OF rest k1] obtain x where x: "sl ! Suc k = Live x" by blast
  let ?sl1 = "sl[Suc k := Live (moved_from T x)]"
  let ?sl2 = "?sl1[k := Live x]"
  let ?h0 = "h\<lparr>blocks := (blocks h)(b \<mapsto> ?sl1)\<rparr>"
  let ?h1 = "h\<lparr>blocks := (blocks h)(b \<mapsto> ?sl2)\<rparr>"
  have rd: "move_from T (Ptr (Some b) (Suc k)) h = Done x ?h0"
    using Suc.prems(1) k1 x by (simp add: move_from_def cell_block put_block)
  have wr: "assign_at (Ptr (Some b) k) x ?h0 = Done () ?h1"
    using k y by (simp add: assign_at_def cell_block put_block)
  have b1: "blocks ?h1 b = Some ?sl2" by simp
  have len: "Suc (Suc k + m) \<le> length ?sl2" using Suc.prems(2) by simp
  have rest1: "list_all is_live (take (Suc m) (drop (Suc k) ?sl2))"
    using rest k1 by (simp add: drop_update_swap[symmetric] take_update_swap list_all_length nth_list_update)
  let ?R = "take k sl @ take (Suc m) (drop (Suc k) sl) @
             [if Suc m = 0 then sl ! k else residue T (sl ! (k + Suc m))] @ drop (Suc (k + Suc m)) sl"
  have eq: "take (Suc k) ?sl2 @ take m (drop (Suc (Suc k)) ?sl2) @
             [if m = 0 then ?sl2 ! Suc k else residue T (?sl2 ! (Suc k + m))] @ drop (Suc (Suc k + m)) ?sl2
      = ?R"
    using k k1 x by (auto simp: take_Suc_conv_app_nth Cons_nth_drop_Suc[symmetric] nth_list_update)
  have "move_n T (Suc m) (Ptr (Some b) (Suc k)) (Ptr (Some b) k) h =
      move_n T m (Ptr (Some b) (Suc (Suc k))) (Ptr (Some b) (Suc k)) ?h1"
    using rd wr by simp
  also have "\<dots> = Done () (?h1\<lparr>blocks := (blocks ?h1)(b \<mapsto> ?R)\<rparr>)"
    using Suc.IH[OF b1 len rest1] unfolding eq .
  also have "?h1\<lparr>blocks := (blocks ?h1)(b \<mapsto> ?R)\<rparr> = h\<lparr>blocks := (blocks h)(b \<mapsto> ?R)\<rparr>"
    by simp
  finally show ?case .
qed

lemma move_backward_n_right:
  "blocks h b = Some sl \<Longrightarrow> Suc (k + m) \<le> length sl \<Longrightarrow>
   list_all is_live (take (Suc m) (drop k sl)) \<Longrightarrow>
   move_backward_n T m (Ptr (Some b) (k + m)) (Ptr (Some b) (Suc (k + m))) h =
     Done () (h\<lparr>blocks := (blocks h)
       (b \<mapsto> take k sl @ [if m = 0 then sl ! k else residue T (sl ! k)] @
             take m (drop k sl) @ drop (Suc (k + m)) sl)\<rparr>)"
proof (induction m arbitrary: sl h)
  case 0
  have l: "take k sl @ [if (0::nat) = 0 then sl ! k else residue T (sl ! k)] @
             take 0 (drop k sl) @ drop (Suc (k + 0)) sl = sl"
    using 0(2) by (simp add: Cons_nth_drop_Suc)
  have "move_backward_n T 0 (Ptr (Some b) (k + 0)) (Ptr (Some b) (Suc (k + 0))) h = Done () h" by simp
  then show ?case unfolding l heap_blocks_same[OF 0(1)] .
next
  case (Suc m)
  have live: "\<And>t. t \<le> Suc m \<Longrightarrow> is_live (sl ! (k + t))"
    using Suc.prems(2,3) by (auto simp: list_all_length)
  from live[of m] obtain x where x: "sl ! (k + m) = Live x" by (cases "sl ! (k + m)") auto
  from live[of "Suc m"] obtain y where y: "sl ! Suc (k + m) = Live y" by (cases "sl ! Suc (k + m)") auto
  let ?sl1 = "sl[k + m := Live (moved_from T x)]"
  let ?sl2 = "?sl1[Suc (k + m) := Live x]"
  let ?h0 = "h\<lparr>blocks := (blocks h)(b \<mapsto> ?sl1)\<rparr>"
  let ?h1 = "h\<lparr>blocks := (blocks h)(b \<mapsto> ?sl2)\<rparr>"
  have p1: "ptr_sub (Ptr (Some b) (k + Suc m)) 1 = Some (Ptr (Some b) (k + m))"
    "ptr_sub (Ptr (Some b) (Suc (k + Suc m))) 1 = Some (Ptr (Some b) (Suc (k + m)))"
    by (simp_all add: ptr_sub_def)
  have rd: "move_from T (Ptr (Some b) (k + m)) h = Done x ?h0"
    using Suc.prems(1,2) x by (simp add: move_from_def cell_block put_block)
  have wr: "assign_at (Ptr (Some b) (Suc (k + m))) x ?h0 = Done () ?h1"
    using Suc.prems(2) y by (simp add: assign_at_def cell_block put_block)
  have b1: "blocks ?h1 b = Some ?sl2" by simp
  have len: "Suc (k + m) \<le> length ?sl2" using Suc.prems(2) by simp
  have rest1: "list_all is_live (take (Suc m) (drop k ?sl2))"
    using live Suc.prems(2) by (auto simp: list_all_length nth_list_update)
  let ?R = "take k sl @ [if Suc m = 0 then sl ! k else residue T (sl ! k)] @
             take (Suc m) (drop k sl) @ drop (Suc (k + Suc m)) sl"
  have eq: "take k ?sl2 @ [if m = 0 then ?sl2 ! k else residue T (?sl2 ! k)] @
             take m (drop k ?sl2) @ drop (Suc (k + m)) ?sl2 = ?R"
  proof -
    have a: "take k ?sl2 = take k sl" by simp
    have b: "(if m = 0 then ?sl2 ! k else residue T (?sl2 ! k)) = residue T (sl ! k)"
      using x Suc.prems(2) by (cases m) (auto simp: nth_list_update)
    have c: "take m (drop k ?sl2) = take m (drop k sl)"
      by (simp add: drop_update_swap)
    have d: "drop (Suc (k + m)) ?sl2 = Live x # drop (Suc (Suc (k + m))) sl"
      using Suc.prems(2) by (simp add: Cons_nth_drop_Suc[symmetric])
    have e: "take (Suc m) (drop k sl) = take m (drop k sl) @ [Live x]"
      using x Suc.prems(2) by (simp add: take_Suc_conv_app_nth)
    show ?thesis unfolding a b c d e by simp
  qed
  have "move_backward_n T (Suc m) (Ptr (Some b) (k + Suc m)) (Ptr (Some b) (Suc (k + Suc m))) h =
      move_backward_n T m (Ptr (Some b) (k + m)) (Ptr (Some b) (Suc (k + m))) ?h1"
    using rd wr p1 by simp
  also have "\<dots> = Done () (?h1\<lparr>blocks := (blocks ?h1)(b \<mapsto> ?R)\<rparr>)"
    using Suc.IH[OF b1 len rest1] unfolding eq .
  also have "?h1\<lparr>blocks := (blocks ?h1)(b \<mapsto> ?R)\<rparr> = h\<lparr>blocks := (blocks h)(b \<mapsto> ?R)\<rparr>"
    by simp
  finally show ?case .
qed

section \<open>The operations on a vector that owns a block\<close>

lemma external_construct: "external a = Some x \<Longrightarrow> construct_T T a h = Done x h"
  by (cases a rule: external.cases) auto

lemma placement_new_block:
  "external a = Some x \<Longrightarrow> blocks h b = Some sl \<Longrightarrow> i < length sl \<Longrightarrow>
   placement_new T (Ptr (Some b) i) a h = Done () (h\<lparr>blocks := (blocks h)(b \<mapsto> sl[i := Live x])\<rparr>)"
  by (simp add: placement_new_def external_construct construct_at_def cell_block put_block)

lemma replicate_update:
  "i < N \<Longrightarrow> (replicate N c)[i := y] = replicate i c @ y # replicate (N - Suc i) c"
  by (simp add: upd_conv_take_nth_drop min_def)

lemma insert_list_eq:
  fixes x :: 'a
  assumes "i \<le> length xs" "length xs < N"
  defines "dl1 \<equiv> (replicate N Raw)[i := Live x]"
  defines "dl2 \<equiv> take 0 dl1 @ take i (drop 0 (map Live xs)) @ drop (0 + i) dl1"
  shows "take (Suc i) dl2 @ take (length xs - i) (drop i (map Live xs)) @
         drop (Suc i + (length xs - i)) dl2
       = map Live (take i xs @ x # drop i xs) @ replicate (N - Suc (length xs)) Raw"
proof -
  have a: "dl1 = replicate i Raw @ Live x # replicate (N - Suc i) Raw"
    unfolding dl1_def using assms(1,2) by (simp add: replicate_update)
  have b: "dl2 = map Live (take i xs) @ Live x # replicate (N - Suc i) Raw"
    unfolding dl2_def a using assms(1) by (simp add: take_map)
  have c: "take (Suc i) dl2 = map Live (take i xs) @ [Live x]"
    unfolding b using assms(1) by simp
  have d: "drop (Suc i + (length xs - i)) dl2 = replicate (N - Suc (length xs)) Raw"
    unfolding b using assms(1,2) by (simp add: Suc_diff_le)
  have e: "take (length xs - i) (drop i (map Live xs)) = map Live (drop i xs)"
    by (simp add: drop_map)
  show ?thesis unfolding c d e by simp
qed


lemma all_live_take [simp]: "list_all is_live ys \<Longrightarrow> list_all is_live (take n ys)"
  by (auto simp: list_all_length)

lemma all_live_drop [simp]: "list_all is_live ys \<Longrightarrow> list_all is_live (drop n ys)"
  by (auto simp: list_all_length)

lemma all_live_residue [simp]:
  "list_all is_live ys \<Longrightarrow> list_all is_live (map (residue T) ys)"
  by (induction ys) (auto elim: is_live.elims)

lemma all_live_residue_comp [simp]: "list_all is_live (map (residue T \<circ> Live) xs)"
  by (induction xs) auto

lemma Emplace_grow:
  assumes H: "holds (v, h) b xs 0" and i: "i \<le> length xs" and a: "external a = Some x"
    and f: "fits T (if length xs = 0 then 1 else length xs * 2)"
  defines "N \<equiv> (if length xs = 0 then 1 else length xs * 2)"
  shows "Emplace T (Ptr (Some b) i) a (v, h) =
     (if N \<le> avail h then
        Done (Ptr (Some (next_block h)) i)
          (\<lparr>m_data = \<lparr>m_buffer = Ptr (Some (next_block h)) 0, m_capacity = N\<rparr>,
            m_size = Suc (length xs)\<rparr>,
           h\<lparr>blocks := (blocks h)
                (next_block h \<mapsto> map Live (take i xs @ x # drop i xs) @
                                 replicate (N - Suc (length xs)) Raw,
                 b := None),
             next_block := Suc (next_block h), avail := avail h - N + length xs\<rparr>)
      else Thrown (v, h))"
proof -
  let ?n = "length xs"
  let ?nb = "next_block h"
  let ?sl = "map Live xs"
  from H have v: "v = \<lparr>m_data = \<lparr>m_buffer = Ptr (Some b) 0, m_capacity = ?n\<rparr>, m_size = ?n\<rparr>"
    and hb: "blocks h b = Some ?sl" and bn: "b < ?nb" by (simp_all add: holds_def)
  have N0: "N \<noteq> 0" and Nn: "?n < N" by (simp_all add: N_def)
  have fN: "fits T N" using f by (simp add: N_def)
  have Nfold: "(if xs = [] then Suc 0 else length xs * 2) = N" by (simp add: N_def)
  have dist: "distance (cbegin v) (Ptr (Some b) i) = Some (int i)"
    "distance (Ptr (Some b) i) (cend v) = Some (int ?n - int i)"
    by (simp_all add: v distance_def cbegin_def cend_def GetAddress_def)
  have sz: "to_size_t (int i) = i" "to_size_t (int ?n - int i) = ?n - i"
    using i by (simp_all add: to_size_t_def)
  show ?thesis
  proof (cases "N \<le> avail h")
    case False
    then have "RawMemory_ctor T N h = Thrown h"
      using N0 by (simp add: RawMemory_ctor_fits[OF fN])
    then show ?thesis using False dist sz
      by (simp add: Emplace_def on_heap_def v RawMemory_Capacity_def Nfold Let_def split del: if_split cong del: if_weak_cong)
  next
    case True
    define tv where "tv = \<lparr>m_buffer = Ptr (Some ?nb) 0, m_capacity = N\<rparr>"
    define h1 where "h1 = h\<lparr>blocks := (blocks h)(?nb \<mapsto> replicate N Raw),
      next_block := Suc ?nb, avail := avail h - N\<rparr>"
    define dl1 where "dl1 = (replicate N (Raw :: 'a slot))[i := Live x]"
    define h2 where "h2 = h1\<lparr>blocks := (blocks h1)(?nb \<mapsto> dl1)\<rparr>"
    define dl2 where "dl2 = take 0 dl1 @ take i (drop 0 ?sl) @ drop (0 + i) dl1"
    define dl3 where "dl3 = take (Suc i) dl2 @ take (?n - i) (drop i ?sl) @ drop (Suc i + (?n - i)) dl2"
    define ol where "ol = (if relocate_by_move T then map (residue T) ?sl else ?sl)"
    define h3 where "h3 = h2\<lparr>blocks := (blocks h2)(b \<mapsto> ol, ?nb \<mapsto> dl3)\<rparr>"
    define h4 where "h4 = h3\<lparr>blocks := (blocks h3)(b \<mapsto> replicate ?n Raw)\<rparr>"
    define h5 where "h5 = h4\<lparr>blocks := (blocks h4)(b := None), avail := avail h4 + ?n\<rparr>"
    have ne: "b \<noteq> ?nb" using bn by simp
    have s1: "RawMemory_ctor T N h = Done tv h1"
      using True N0 by (simp add: RawMemory_ctor_fits[OF fN] tv_def h1_def)
    have h1b: "blocks h1 b = Some ?sl" "blocks h1 ?nb = Some (replicate N Raw)"
      using hb ne by (simp_all add: h1_def)
    have s2: "placement_new T (Ptr (Some ?nb) i) a h1 = Done () h2"
      using placement_new_block[OF a h1b(2), of i T] i Nn by (simp add: h2_def dl1_def)
    have h2b: "blocks h2 b = Some ?sl" "blocks h2 ?nb = Some dl1"
      using h1b ne by (simp_all add: h2_def)
    have len1: "length dl1 = N" by (simp add: dl1_def)
    have len2: "length dl2 = N" using i Nn by (simp add: dl2_def len1)
    have s3: "(if relocate_by_move T
               then (\<lambda>h. and_then (uninitialized_move_n T i (Ptr (Some b) 0) (Ptr (Some ?nb) 0) h)
                     (\<lambda>_. uninitialized_move_n T (?n - i) (Ptr (Some b) i) (Ptr (Some ?nb) (Suc i))))
               else (\<lambda>h. and_then (uninitialized_copy_n i (Ptr (Some b) 0) (Ptr (Some ?nb) 0) h)
                     (\<lambda>_. uninitialized_copy_n (?n - i) (Ptr (Some b) i) (Ptr (Some ?nb) (Suc i))))) h2
             = Done () h3"
    proof (cases "relocate_by_move T")
      case False
      let ?g = "h2\<lparr>blocks := (blocks h2)(?nb \<mapsto> dl2)\<rparr>"
      have c1: "uninitialized_copy_n i (Ptr (Some b) 0) (Ptr (Some ?nb) 0) h2 = Done () ?g"
        using uninitialized_copy_n_blocks[OF h2b ne, of 0 i 0] i Nn
        by (simp add: dl2_def len1)
      have gb: "blocks ?g b = Some ?sl" "blocks ?g ?nb = Some dl2"
        using h2b ne by simp_all
      have c2: "uninitialized_copy_n (?n - i) (Ptr (Some b) i) (Ptr (Some ?nb) (Suc i)) ?g =
          Done () (?g\<lparr>blocks := (blocks ?g)(?nb \<mapsto> dl3)\<rparr>)"
        using uninitialized_copy_n_blocks[OF gb ne, of i "?n - i" "Suc i"] i Nn
        by (simp add: dl3_def len2)
      have "?g\<lparr>blocks := (blocks ?g)(?nb \<mapsto> dl3)\<rparr> = h3"
        using False ne hb h2b by (simp add: h3_def ol_def fun_upd_twist fun_upd_idem)
      then show ?thesis using False c1 c2 by simp
    next
      case True
      let ?o1 = "take 0 ?sl @ map (residue T) (take i (drop 0 ?sl)) @ drop (0 + i) ?sl"
      let ?g = "h2\<lparr>blocks := (blocks h2)(b \<mapsto> ?o1, ?nb \<mapsto> dl2)\<rparr>"
      have c1: "uninitialized_move_n T i (Ptr (Some b) 0) (Ptr (Some ?nb) 0) h2 = Done () ?g"
        using uninitialized_move_n_blocks[OF h2b ne, of 0 i 0 T] i Nn
        by (simp add: dl2_def len1)
      have gb: "blocks ?g b = Some ?o1" "blocks ?g ?nb = Some dl2"
        using ne by simp_all
      have lo: "length ?o1 = ?n" using i by simp
      have live: "list_all is_live (take (?n - i) (drop i ?o1))"
        using i by (simp add: list_all_length nth_append)
      let ?o2 = "take i ?o1 @ map (residue T) (take (?n - i) (drop i ?o1)) @ drop (i + (?n - i)) ?o1"
      have c2: "uninitialized_move_n T (?n - i) (Ptr (Some b) i) (Ptr (Some ?nb) (Suc i)) ?g =
          Done () (?g\<lparr>blocks := (blocks ?g)(b \<mapsto> ?o2,
             ?nb \<mapsto> take (Suc i) dl2 @ take (?n - i) (drop i ?o1) @ drop (Suc i + (?n - i)) dl2)\<rparr>)"
        using uninitialized_move_n_blocks[OF gb ne _ _ live, of "Suc i" T] i Nn lo
        by (simp add: len2)
      have o2: "?o2 = ol"
        using True i by (simp add: ol_def take_map drop_map flip: map_append)
      have d3: "take (Suc i) dl2 @ take (?n - i) (drop i ?o1) @ drop (Suc i + (?n - i)) dl2 = dl3"
        using i by (simp add: dl3_def)
      have "?g\<lparr>blocks := (blocks ?g)(b \<mapsto> ?o2,
             ?nb \<mapsto> take (Suc i) dl2 @ take (?n - i) (drop i ?o1) @ drop (Suc i + (?n - i)) dl2)\<rparr> = h3"
        unfolding o2 d3 using ne by (simp add: h3_def upd2_absorb)
      then show ?thesis using True c1 c2 by simp
    qed
    have h3b: "blocks h3 b = Some ol" using ne by (simp add: h3_def)
    have oll: "length ol = ?n" "list_all is_live (take ?n (drop 0 ol))"
      by (simp_all add: ol_def)
    have s4: "destroy_n ?n (Ptr (Some b) 0) h3 = Done () h4"
      using destroy_n_block[OF h3b, of 0 ?n] oll by (simp add: h4_def)
    have s5: "RawMemory_dtor \<lparr>m_buffer = Ptr (Some b) 0, m_capacity = ?n\<rparr> h4 = Done () h5"
      by (simp add: RawMemory_dtor_def Deallocate_def operator_delete_def nullptr_def h4_def h5_def)
    have d3: "dl3 = map Live (take i xs @ x # drop i xs) @ replicate (N - Suc ?n) Raw"
      unfolding dl3_def dl2_def dl1_def using insert_list_eq[OF i Nn] .
    have fin: "h5 = h\<lparr>blocks := (blocks h)
                (?nb \<mapsto> map Live (take i xs @ x # drop i xs) @ replicate (N - Suc ?n) Raw,
                 b := None),
             next_block := Suc ?nb, avail := avail h - N + ?n\<rparr>"
      using ne unfolding h5_def h4_def h3_def h2_def h1_def d3
      by (simp add: fun_upd_twist)
    have "Emplace T (Ptr (Some b) i) a (v, h) =
        Done (Ptr (Some ?nb) i) (\<lparr>m_data = tv, m_size = Suc ?n\<rparr>, h5)"
      using True dist sz s1 s2 s3 s4 s5
      by (simp add: Emplace_def on_heap_def v RawMemory_Capacity_def Nfold GetAddress_def
          vbegin_def RawMemory_Swap_def tv_def Let_def split del: if_split cong del: if_weak_cong)
    then show ?thesis using True unfolding fin tv_def by simp
  qed
qed

lemma Emplace_default:
  assumes a: "external a = Some x" and f: "fits T 1"
  shows "Emplace T nullptr a (Vector_default, h) =
     (if 1 \<le> avail h then
        Done (Ptr (Some (next_block h)) 0)
          (\<lparr>m_data = \<lparr>m_buffer = Ptr (Some (next_block h)) 0, m_capacity = 1\<rparr>, m_size = 1\<rparr>,
           h\<lparr>blocks := (blocks h)(next_block h \<mapsto> [Live x]),
             next_block := Suc (next_block h), avail := avail h - 1\<rparr>)
      else Thrown (Vector_default, h))"
proof (cases "1 \<le> avail h")
  case False
  then have "RawMemory_ctor T (Suc 0) h = Thrown h"
    using f by (simp add: RawMemory_ctor_fits)
  then show ?thesis using False
    by (simp add: Emplace_def on_heap_def Vector_default_def RawMemory_default_def nullptr_def
        RawMemory_Capacity_def distance_def cbegin_def cend_def GetAddress_def to_size_t_def)
next
  case True
  let ?nb = "next_block h"
  define tv where "tv = \<lparr>m_buffer = Ptr (Some ?nb) 0, m_capacity = Suc 0\<rparr>"
  define h1 where "h1 = h\<lparr>blocks := (blocks h)(?nb \<mapsto> replicate (Suc 0) Raw),
      next_block := Suc ?nb, avail := avail h - Suc 0\<rparr>"
  define h2 where "h2 = h1\<lparr>blocks := (blocks h1)(?nb \<mapsto> [Live x])\<rparr>"
  have s1: "RawMemory_ctor T (Suc 0) h = Done tv h1"
    using True f by (simp add: RawMemory_ctor_fits tv_def h1_def)
  have h1b: "blocks h1 ?nb = Some (replicate (Suc 0) Raw)" by (simp add: h1_def)
  have s2: "placement_new T (Ptr (Some ?nb) 0) a h1 = Done () h2"
    using placement_new_block[OF a h1b, of 0 T] by (simp add: h2_def)
  have s5: "RawMemory_dtor \<lparr>m_buffer = Ptr None 0, m_capacity = 0\<rparr> h2 = Done () h2"
    by (simp add: RawMemory_dtor_def Deallocate_def operator_delete_def nullptr_def)
  have fin: "h2 = h\<lparr>blocks := (blocks h)(?nb \<mapsto> [Live x]),
             next_block := Suc ?nb, avail := avail h - 1\<rparr>"
    by (simp add: h2_def h1_def)
  have "Emplace T nullptr a (Vector_default, h) =
      Done (Ptr (Some ?nb) 0) (\<lparr>m_data = tv, m_size = Suc 0\<rparr>, h2)"
    using s1 s2 s5
    by (simp add: Emplace_def on_heap_def Vector_default_def RawMemory_default_def nullptr_def
        RawMemory_Capacity_def distance_def cbegin_def cend_def GetAddress_def to_size_t_def
        vbegin_def RawMemory_Swap_def tv_def Let_def split del: if_split cong del: if_weak_cong)
  then show ?thesis using True unfolding fin tv_def by simp
qed

lemma shift_list_eq:
  fixes x :: 'a and T :: "'a elem_type"
  assumes "i < length xs" "0 < k"
  defines "n \<equiv> length xs"
  defines "sl \<equiv> map Live xs @ replicate k (Raw :: 'a slot)"
  defines "sl1 \<equiv> sl[n - 1 := Live (moved_from T (last xs)), n := Live (last xs)]"
  defines "m \<equiv> n - 1 - i"
  defines "sl2 \<equiv> take i sl1 @ [if m = 0 then sl1 ! i else residue T (sl1 ! i)] @
             take m (drop i sl1) @ drop (Suc (i + m)) sl1"
  shows "sl2[i := Live x] = map Live (take i xs @ x # drop i xs) @ replicate (k - 1) Raw"
proof -
  have n: "0 < n" "i < n" "Suc (i + m) = n" using assms(1) by (auto simp: n_def m_def)
  have xs: "xs = take i xs @ take m (drop i xs) @ [last xs]"
  proof -
    have "drop i xs \<noteq> []" using assms(1) by simp
    then have "drop i xs = butlast (drop i xs) @ [last (drop i xs)]"
      by (rule append_butlast_last_id[symmetric])
    moreover have "last (drop i xs) = last xs" using assms(1) by simp
    moreover have "butlast (drop i xs) = take m (drop i xs)"
      using assms(1) by (simp add: butlast_conv_take m_def n_def)
    ultimately have "drop i xs = take m (drop i xs) @ [last xs]" by simp
    then show ?thesis using append_take_drop_id[of i xs] by simp
  qed
  have a: "take i sl1 = map Live (take i xs)"
    using n unfolding sl1_def sl_def by (simp add: n_def take_map)
  have b: "take m (drop i sl1) = map Live (take m (drop i xs))"
    using n unfolding sl1_def sl_def
    by (simp add: n_def m_def drop_update_swap take_map drop_map)
  have c: "drop (Suc (i + m)) sl1 = Live (last xs) # replicate (k - 1) Raw"
    using n assms(2) unfolding n(3) sl1_def sl_def
    by (cases k) (simp_all add: n_def drop_update_swap)
  have len: "length (take i sl1) = i" using n unfolding sl1_def sl_def by (simp add: n_def)
  have "sl2[i := Live x] = map Live (take i xs) @ [Live x] @ map Live (take m (drop i xs)) @
      Live (last xs) # replicate (k - 1) Raw"
    unfolding sl2_def b c using len a by (simp add: list_update_append)
  also have "\<dots> = map Live (take i xs @ x # (take m (drop i xs) @ [last xs])) @ replicate (k - 1) Raw"
    by simp
  also have "take m (drop i xs) @ [last xs] = drop i xs"
    using xs append_take_drop_id[of i xs] by (metis append_same_eq same_append_eq)
  finally show ?thesis .
qed

lemma Emplace_room:
  assumes H: "holds (v, h) b xs k" and k: "0 < k" and i: "i \<le> length xs"
    and a: "external a = Some x"
  shows "Emplace T (Ptr (Some b) i) a (v, h) =
     Done (Ptr (Some b) i)
       (v\<lparr>m_size := Suc (length xs)\<rparr>,
        h\<lparr>blocks := (blocks h)
           (b \<mapsto> map Live (take i xs @ x # drop i xs) @ replicate (k - 1) Raw)\<rparr>)"
proof -
  let ?n = "length xs"
  let ?sl = "map Live xs @ replicate k (Raw :: 'a slot)"
  let ?R = "map Live (take i xs @ x # drop i xs) @ replicate (k - 1) (Raw :: 'a slot)"
  from H have v: "v = \<lparr>m_data = \<lparr>m_buffer = Ptr (Some b) 0, m_capacity = ?n + k\<rparr>, m_size = ?n\<rparr>"
    and hb: "blocks h b = Some ?sl" by (simp_all add: holds_def)
  have dist: "distance (cbegin v) (Ptr (Some b) i) = Some (int i)"
    by (simp add: v distance_def cbegin_def GetAddress_def)
  have sz: "to_size_t (int i) = i" by (simp add: to_size_t_def)
  have ncap: "?n \<noteq> ?n + k" using k by simp
  show ?thesis
  proof (cases "i = ?n")
    case True
    have upd: "?sl[?n := Live x] = ?R"
      using k True by (cases k) (simp_all add: list_update_append)
    have s: "placement_new T (Ptr (Some b) ?n) a h = Done () (h\<lparr>blocks := (blocks h)(b \<mapsto> ?R)\<rparr>)"
      using placement_new_block[OF a hb, of ?n T] k unfolding upd by simp
    show ?thesis using True dist sz s ncap
      by (simp add: Emplace_def on_heap_def v RawMemory_Capacity_def GetAddress_def vbegin_def
          Let_def split del: if_split cong del: if_weak_cong)
  next
    case False
    with i have il: "i < ?n" by simp
    define m where "m = ?n - 1 - i"
    define sl1 where "sl1 = ?sl[?n - 1 := Live (moved_from T (last xs)), ?n := Live (last xs)]"
    define sl2 where "sl2 = take i sl1 @ [if m = 0 then sl1 ! i else residue T (sl1 ! i)] @
             take m (drop i sl1) @ drop (Suc (i + m)) sl1"
    define h1 where "h1 = h\<lparr>blocks := (blocks h)(b \<mapsto> sl1)\<rparr>"
    define h2 where "h2 = h1\<lparr>blocks := (blocks h1)(b \<mapsto> sl2)\<rparr>"
    define h3 where "h3 = h2\<lparr>blocks := (blocks h2)(b \<mapsto> sl2[i := Live x])\<rparr>"
    have n: "0 < ?n" "Suc (i + m) = ?n" "i + m = ?n - 1" "xs \<noteq> []"
      using il by (auto simp: m_def)
    have lastx: "?sl ! (?n - 1) = Live (last xs)"
      using n(1,4) by (simp add: nth_append last_conv_nth)
    have n1: "Suc 0 \<le> ?n" using n(4) by (cases xs) auto
    have bk: "ptr_sub (vend v) 1 = Some (Ptr (Some b) (?n - 1))"
      using n1 by (simp add: v vend_def GetAddress_def ptr_sub_def)
    have t1: "and_then (move_from T (Ptr (Some b) (?n - 1)) h) (construct_at (Ptr (Some b) ?n)) =
        Done () h1"
      using hb lastx k n(1)
      by (simp add: move_from_def construct_at_def cell_block put_block h1_def sl1_def)
    have h1b: "blocks h1 b = Some sl1" by (simp add: h1_def)
    have len1: "length sl1 = ?n + k" by (simp add: sl1_def)
    have live1: "list_all is_live (take (Suc m) (drop i sl1))"
      using il k by (auto simp: list_all_length sl1_def nth_list_update nth_append m_def)
    have rl: "range_length (Ptr (Some b) i) (Ptr (Some b) (?n - 1)) = Some m"
      using il by (auto simp: range_length_def distance_def m_def)
    have t2: "move_backward T (Ptr (Some b) i) (Ptr (Some b) (?n - 1)) (Ptr (Some b) ?n) h1 =
        Done () h2"
      using move_backward_n_right[OF h1b _ live1, of T] rl n(2,3) len1 k
      by (simp add: move_backward_def h2_def sl2_def)
    have t3: "construct_T T a h2 = Done x h2" by (rule external_construct[OF a])
    have h2b: "blocks h2 b = Some sl2" by (simp add: h2_def)
    have len2: "length sl2 = ?n + k" using n(2) il k by (simp add: sl2_def len1)
    have sl2i: "is_live (sl2 ! i)"
    proof -
      have "length (take i sl1) = i" using il by (simp add: len1)
      then have "sl2 ! i = (if m = 0 then sl1 ! i else residue T (sl1 ! i))"
        unfolding sl2_def by (simp add: nth_append)
      moreover have "is_live (sl1 ! i)"
        using il k by (auto simp: sl1_def nth_list_update nth_append)
      ultimately show ?thesis by (cases "sl1 ! i") auto
    qed
    have idx: "RawMemory_index \<lparr>m_buffer = Ptr (Some b) 0, m_capacity = ?n + k\<rparr> i =
        Some (Ptr (Some b) i)"
      using il by (simp add: RawMemory_index_def)
    have t4: "assign_at (Ptr (Some b) i) x h2 = Done () h3"
      using h2b sl2i il len2 by (cases "sl2 ! i") (simp_all add: assign_at_def cell_block put_block h3_def)
    have l: "sl2[i := Live x] = ?R"
      unfolding sl2_def sl1_def m_def using shift_list_eq[OF il k, of T x] .
    have fin: "h3 = h\<lparr>blocks := (blocks h)(b \<mapsto> ?R)\<rparr>"
      unfolding h3_def h2_def h1_def l by simp
    have "Emplace T (Ptr (Some b) i) a (v, h) =
        Done (Ptr (Some b) i) (v\<lparr>m_size := Suc ?n\<rparr>, h3)"
      using False dist sz ncap bk t1 t2 t3 t4 idx
      by (simp add: Emplace_def on_heap_def v RawMemory_Capacity_def GetAddress_def vbegin_def
          vend_def Let_def split del: if_split cong del: if_weak_cong)
    then show ?thesis unfolding fin .
  qed
qed

lemma erase_list_eq:
  fixes T :: "'a elem_type" and k :: nat
  assumes "i < length ys"
  defines "n \<equiv> length ys"
  defines "sl \<equiv> map Live ys @ replicate k (Raw :: 'a slot)"
  defines "m \<equiv> n - Suc i"
  defines "sl1 \<equiv> take i sl @ take m (drop (Suc i) sl) @
             [if m = 0 then sl ! i else residue T (sl ! (i + m))] @ drop (Suc (i + m)) sl"
  shows "take (n - 1) sl1 @ replicate 1 Raw @ drop (n - 1 + 1) sl1 =
         map Live (take i ys @ drop (Suc i) ys) @ replicate (Suc k) Raw"
    and "length sl1 = n + k" and "is_live (sl1 ! (n - 1))"
proof -
  have n: "Suc (i + m) = n" "i + m = n - 1" using assms(1) by (auto simp: n_def m_def)
  have a: "take i sl = map Live (take i ys)" using assms(1) by (simp add: sl_def take_map)
  have b: "take m (drop (Suc i) sl) = map Live (drop (Suc i) ys)"
    using assms(1) by (simp add: sl_def m_def n_def drop_map)
  have c: "drop (Suc (i + m)) sl = replicate k Raw"
    unfolding n(1) by (simp add: sl_def n_def)
  have la: "length (map Live (take i ys) @ map Live (drop (Suc i) ys)) = n - 1"
    using assms(1) by (simp add: n_def)
  obtain c0 where c0: "(if m = 0 then sl ! i else residue T (sl ! (i + m))) = Live c0"
  proof -
    have "is_live (sl ! i)" "is_live (sl ! (i + m))"
      using assms(1) n by (auto simp: sl_def nth_append n_def)
    then have "is_live (if m = 0 then sl ! i else residue T (sl ! (i + m)))"
      by (cases "sl ! (i + m)") auto
    then show ?thesis using that by (cases "if m = 0 then sl ! i else residue T (sl ! (i + m))") auto
  qed
  have s1: "sl1 = (map Live (take i ys) @ map Live (drop (Suc i) ys)) @ Live c0 # replicate k Raw"
    unfolding sl1_def a b c c0 by simp
  have n0: "Suc (n - 1) = n" using assms(1) by (simp add: n_def)
  show "length sl1 = n + k" unfolding s1 using la n0 by simp
  have "((map Live (take i ys) @ map Live (drop (Suc i) ys)) @ Live c0 # replicate k Raw) !
      length (map Live (take i ys) @ map Live (drop (Suc i) ys)) = Live c0"
    by (rule nth_append_length)
  then show "is_live (sl1 ! (n - 1))" unfolding s1 la by simp
  have "take (n - 1) sl1 = map Live (take i ys) @ map Live (drop (Suc i) ys)"
    unfolding s1 using la by simp
  moreover have "drop (n - 1 + 1) sl1 = replicate k Raw"
    unfolding s1 using la by simp
  ultimately show "take (n - 1) sl1 @ replicate 1 Raw @ drop (n - 1 + 1) sl1 =
         map Live (take i ys @ drop (Suc i) ys) @ replicate (Suc k) Raw"
    by simp
qed

lemma Erase_holds:
  assumes H: "holds (v, h) b ys k" and i: "i < length ys"
  shows "Erase T (Ptr (Some b) i) (v, h) =
     Done (Ptr (Some b) i)
       (v\<lparr>m_size := length ys - 1\<rparr>,
        h\<lparr>blocks := (blocks h)
           (b \<mapsto> map Live (take i ys @ drop (Suc i) ys) @ replicate (Suc k) Raw)\<rparr>)"
proof -
  let ?n = "length ys"
  let ?sl = "map Live ys @ replicate k (Raw :: 'a slot)"
  let ?R = "map Live (take i ys @ drop (Suc i) ys) @ replicate (Suc k) (Raw :: 'a slot)"
  from H have v: "v = \<lparr>m_data = \<lparr>m_buffer = Ptr (Some b) 0, m_capacity = ?n + k\<rparr>, m_size = ?n\<rparr>"
    and hb: "blocks h b = Some ?sl" by (simp_all add: holds_def)
  define m where "m = ?n - Suc i"
  define sl1 where "sl1 = take i ?sl @ take m (drop (Suc i) ?sl) @
             [if m = 0 then ?sl ! i else residue T (?sl ! (i + m))] @ drop (Suc (i + m)) ?sl"
  define h1 where "h1 = h\<lparr>blocks := (blocks h)(b \<mapsto> sl1)\<rparr>"
  define h2 where "h2 = h1\<lparr>blocks := (blocks h1)
      (b \<mapsto> take (?n - 1) sl1 @ replicate 1 Raw @ drop (?n - 1 + 1) sl1)\<rparr>"
  have n: "Suc (i + m) = ?n" "ys \<noteq> []" using i by (auto simp: m_def)
  have n1: "Suc 0 \<le> ?n" using n(2) by (cases ys) auto
  have L: "take (?n - 1) sl1 @ replicate 1 Raw @ drop (?n - 1 + 1) sl1 = ?R"
    "length sl1 = ?n + k" "is_live (sl1 ! (?n - 1))"
    unfolding sl1_def m_def by (rule erase_list_eq[OF i])+
  have dist: "distance (cbegin v) (Ptr (Some b) i) = Some (int i)"
    by (simp add: v distance_def cbegin_def GetAddress_def)
  have sz: "to_size_t (int i) = i" by (simp add: to_size_t_def)
  have rl: "range_length (Ptr (Some b) (Suc i)) (Ptr (Some b) ?n) = Some m"
    using i by (auto simp: range_length_def distance_def m_def)
  have live: "list_all is_live (take (Suc m) (drop i ?sl))"
    using i by (auto simp: list_all_length nth_append m_def)
  have t1: "std_move T (Ptr (Some b) (Suc i)) (Ptr (Some b) ?n) (Ptr (Some b) i) h = Done () h1"
    using move_n_left[OF hb _ live, of T] rl n(1)
    by (simp add: std_move_def h1_def sl1_def)
  have bk: "ptr_sub (vend v) 1 = Some (Ptr (Some b) (?n - 1))"
    using n1 by (simp add: v vend_def GetAddress_def ptr_sub_def)
  have h1b: "blocks h1 b = Some sl1" by (simp add: h1_def)
  have "take (Suc 0) (drop (?n - 1) sl1) = [sl1 ! (?n - 1)]"
    using L(2) n1 by (simp add: take_Suc_conv_app_nth)
  then have live1: "list_all is_live (take 1 (drop (?n - 1) sl1))"
    using L(3) by simp
  have t2: "destroy_n 1 (Ptr (Some b) (?n - 1)) h1 = Done () h2"
    using destroy_n_block[OF h1b _ live1] L(2) n1 unfolding h2_def by simp
  have fin: "h2 = h\<lparr>blocks := (blocks h)(b \<mapsto> ?R)\<rparr>"
    unfolding h2_def L(1) by (simp add: h1_def)
  have "Erase T (Ptr (Some b) i) (v, h) = Done (Ptr (Some b) i) (v\<lparr>m_size := ?n - 1\<rparr>, h2)"
    using dist sz t1 bk t2 n1
    by (simp add: Erase_def on_heap_def v GetAddress_def vbegin_def vend_def size_t_sub_def
        Let_def split del: if_split cong del: if_weak_cong)
  then show ?thesis unfolding fin .
qed



section \<open>Appending\<close>

lemma holds_size_cap:
  "holds (v, h) b xs k \<Longrightarrow> Size v = length xs \<and> Capacity v = length xs + k \<and>
     vbegin v = Ptr (Some b) 0 \<and> m_size v = length xs"
  by (simp add: holds_def Size_def Capacity_def RawMemory_Capacity_def vbegin_def GetAddress_def)

lemma EmplaceBack_step:
  assumes a: "external a = Some x"
    and st: "v = Vector_default \<and> ys = [] \<or> (\<exists>b k. holds (v, h) b ys k)"
    and f: "fits T (2 * Suc (length ys))"
  shows "(\<exists>v' h' b' k'. EmplaceBack T a (v, h) = Done (ptr_add (vbegin v') (length ys)) (v', h') \<and>
            holds (v', h') b' (ys @ [x]) k' \<and> avail h' + Capacity v' = avail h + Capacity v) \<or>
         (EmplaceBack T a (v, h) = Thrown (v, h) \<and> avail h + Capacity v < 3 * Suc (length ys))"
proof -
  have f1: "fits T 1" by (rule fits_mono[OF f]) simp
  have fN: "fits T (if length ys = 0 then 1 else length ys * 2)"
    by (rule fits_mono[OF f]) simp
  from st consider (null) "v = Vector_default" "ys = []"
    | (room) b k where "holds (v, h) b ys k" "0 < k"
    | (full) b where "holds (v, h) b ys 0" by (cases "\<exists>b k. holds (v, h) b ys k \<and> 0 < k") auto
  then show ?thesis
  proof cases
    case null
    have pos: "ptr_add (vbegin v) (m_size v) = nullptr"
      by (simp add: null Vector_default_def RawMemory_default_def vbegin_def GetAddress_def
          nullptr_def ptr_add_def)
    show ?thesis
    proof (cases "1 \<le> avail h")
      case True
      let ?v' = "\<lparr>m_data = \<lparr>m_buffer = Ptr (Some (next_block h)) 0, m_capacity = 1\<rparr>, m_size = 1\<rparr>"
      let ?h' = "h\<lparr>blocks := (blocks h)(next_block h \<mapsto> [Live x]),
             next_block := Suc (next_block h), avail := avail h - 1\<rparr>"
      have "EmplaceBack T a (v, h) = Done (ptr_add (vbegin ?v') (length ys)) (?v', ?h')"
        using True Emplace_default[OF a f1, of h] pos null
        by (simp add: EmplaceBack_def vbegin_def GetAddress_def)
      moreover have "holds (?v', ?h') (next_block h) (ys @ [x]) 0"
        using null by (simp add: holds_def)
      moreover have "avail ?h' + Capacity ?v' = avail h + Capacity v"
        using True null
        by (simp add: Capacity_def RawMemory_Capacity_def Vector_default_def RawMemory_default_def)
      ultimately show ?thesis by blast
    next
      case False
      then have "EmplaceBack T a (v, h) = Thrown (v, h)"
        using Emplace_default[OF a f1, of h] pos null by (simp add: EmplaceBack_def)
      moreover have "avail h + Capacity v < 3 * Suc (length ys)"
        using False null
        by (simp add: Capacity_def RawMemory_Capacity_def Vector_default_def RawMemory_default_def)
      ultimately show ?thesis by blast
    qed
  next
    case room
    note sc = holds_size_cap[OF room(1)]
    let ?v' = "v\<lparr>m_size := Suc (length ys)\<rparr>"
    let ?h' = "h\<lparr>blocks := (blocks h)
           (b \<mapsto> map Live (take (length ys) ys @ x # drop (length ys) ys) @ replicate (k - 1) Raw)\<rparr>"
    have "EmplaceBack T a (v, h) = Done (ptr_add (vbegin ?v') (length ys)) (?v', ?h')"
      using Emplace_room[OF room(1,2) _ a, of "length ys" T] sc
      by (simp add: EmplaceBack_def vbegin_def)
    moreover have "holds (?v', ?h') b (ys @ [x]) (k - 1)"
      using room by (simp add: holds_def)
    moreover have "avail ?h' + Capacity ?v' = avail h + Capacity v"
      by (simp add: Capacity_def RawMemory_Capacity_def)
    ultimately show ?thesis by blast
  next
    case full
    note sc = holds_size_cap[OF full]
    define N where "N = (if length ys = 0 then 1 else length ys * 2)"
    have Nn: "length ys < N" by (simp add: N_def)
    show ?thesis
    proof (cases "N \<le> avail h")
      case True
      let ?v' = "\<lparr>m_data = \<lparr>m_buffer = Ptr (Some (next_block h)) 0, m_capacity = N\<rparr>,
            m_size = Suc (length ys)\<rparr>"
      let ?h' = "h\<lparr>blocks := (blocks h)
                (next_block h \<mapsto> map Live (take (length ys) ys @ x # drop (length ys) ys) @
                                 replicate (N - Suc (length ys)) Raw,
                 b := None),
             next_block := Suc (next_block h), avail := avail h - N + length ys\<rparr>"
      have "EmplaceBack T a (v, h) = Done (ptr_add (vbegin ?v') (length ys)) (?v', ?h')"
        using True Emplace_grow[OF full _ a fN, of "length ys"] sc
        by (simp add: EmplaceBack_def N_def vbegin_def GetAddress_def)
      moreover have "holds (?v', ?h') (next_block h) (ys @ [x]) (N - Suc (length ys))"
        using Nn full by (simp add: holds_def)
      moreover have "avail ?h' + Capacity ?v' = avail h + Capacity v"
        using True sc by (simp add: Capacity_def RawMemory_Capacity_def)
      ultimately show ?thesis by blast
    next
      case False
      then have "EmplaceBack T a (v, h) = Thrown (v, h)"
        using Emplace_grow[OF full _ a fN, of "length ys"] sc
        by (simp add: EmplaceBack_def N_def)
      moreover have "avail h + Capacity v < 3 * Suc (length ys)"
        using False sc by (simp add: N_def split: if_splits)
      ultimately show ?thesis by blast
    qed
  qed
qed

lemma append_one_EmplaceBack:
  "\<exists>a. external a = appended c \<and>
       append_one T c s = and_then (EmplaceBack T a s) (\<lambda>_. Done ())"
proof (cases c)
  case (By_PushBack w)
  then have "external (ByConstRef w) = appended c \<and>
      append_one T c s = and_then (EmplaceBack T (ByConstRef w) s) (\<lambda>_. Done ())"
    by (simp add: PushBack_def)
  then show ?thesis by (rule exI)
next
  case (By_PushBack_rvalue w)
  then have "external (ByRvalue w) = appended c \<and>
      append_one T c s = and_then (EmplaceBack T (ByRvalue w) s) (\<lambda>_. Done ())"
    by (simp add: PushBack_rvalue_def)
  then show ?thesis by (rule exI)
next
  case (By_EmplaceBack a)
  then have "external a = appended c \<and>
      append_one T c s = and_then (EmplaceBack T a s) (\<lambda>_. Done ())"
    by simp
  then show ?thesis by (rule exI)
qed

lemma append_all_gen:
  assumes "map appended cs = map Some xs"
    and "v = Vector_default \<and> ys = [] \<or> (\<exists>b k. holds (v, h) b ys k)"
    and "fits T (2 * (length ys + length xs))"
  shows "case append_all T cs (v, h) of
           Done r s' \<Rightarrow> Size (fst s') = length ys + length xs \<and>
                        elements s' = map Live (ys @ xs) \<and> vec_inv s'
         | Thrown s' \<Rightarrow> avail h + Capacity v < 3 * (length ys + length xs)
         | Fault \<Rightarrow> False"
  using assms
proof (induction cs arbitrary: xs ys v h)
  case Nil
  then have xs: "xs = []" by simp
  from Nil(2) show ?case
  proof
    assume "v = Vector_default \<and> ys = []"
    then show ?thesis using xs default_inv[of h]
      by (simp add: Size_def Vector_default_def elements_def)
  next
    assume "\<exists>b k. holds (v, h) b ys k"
    then obtain b k where H: "holds (v, h) b ys k" by blast
    show ?thesis using xs holds_inv[OF H] holds_elements[OF H] holds_size_cap[OF H] by simp
  qed
next
  case (Cons c cs)
  then obtain x xs' where xs: "xs = x # xs'" and cx: "appended c = Some x"
    and rest: "map appended cs = map Some xs'" by (cases xs) auto
  obtain a where a: "external a = Some x"
    and ap: "append_one T c (v, h) = and_then (EmplaceBack T a (v, h)) (\<lambda>_. Done ())"
    using append_one_EmplaceBack[of c T "(v, h)"] cx by auto
  have f1: "fits T (2 * Suc (length ys))"
    by (rule fits_mono[OF Cons.prems(3)]) (simp add: xs)
  have f2: "fits T (2 * (length (ys @ [x]) + length xs'))"
    using Cons.prems(3) by (simp add: xs)
  from EmplaceBack_step[OF a Cons.prems(2) f1] show ?case
  proof
    assume "\<exists>v' h' b' k'. EmplaceBack T a (v, h) = Done (ptr_add (vbegin v') (length ys)) (v', h') \<and>
            holds (v', h') b' (ys @ [x]) k' \<and> avail h' + Capacity v' = avail h + Capacity v"
    then obtain v' h' b' k' where
      run: "EmplaceBack T a (v, h) = Done (ptr_add (vbegin v') (length ys)) (v', h')"
      and H: "holds (v', h') b' (ys @ [x]) k'"
      and mem: "avail h' + Capacity v' = avail h + Capacity v" by blast
    have st: "v' = Vector_default \<and> ys @ [x] = [] \<or> (\<exists>b k. holds (v', h') b (ys @ [x]) k)"
      using H by blast
    from Cons.IH[OF rest st f2] show ?thesis
      using run mem xs ap by (auto split: outcome.splits)
  next
    assume "EmplaceBack T a (v, h) = Thrown (v, h) \<and> avail h + Capacity v < 3 * Suc (length ys)"
    then show ?thesis using xs ap by simp
  qed
qed
section \<open>Inserting and erasing\<close>

lemma erase_after_insert:
  assumes H: "holds s1 b (take i xs @ x # drop i xs) k" and i: "i \<le> length xs"
  shows "\<exists>s2. Erase T (Ptr (Some b) i) s1 = Done (Ptr (Some b) i) s2 \<and> holds s2 b xs (Suc k)"
proof -
  obtain v1 h1 where s1: "s1 = (v1, h1)" by (cases s1)
  let ?ys = "take i xs @ x # drop i xs"
  have il: "i < length ?ys" using i by simp
  have restore: "take i ?ys @ drop (Suc i) ?ys = xs" using i by simp
  have len: "length ?ys - 1 = length xs" using i by simp
  let ?s2 = "(v1\<lparr>m_size := length ?ys - 1\<rparr>,
        h1\<lparr>blocks := (blocks h1)
           (b \<mapsto> map Live (take i ?ys @ drop (Suc i) ?ys) @ replicate (Suc k) Raw)\<rparr>)"
  have "Erase T (Ptr (Some b) i) s1 = Done (Ptr (Some b) i) ?s2"
    using Erase_holds[OF H[unfolded s1] il, of T] unfolding s1 .
  moreover have "holds ?s2 b xs (Suc k)"
    using H i unfolding s1 restore len by (simp add: holds_def)
  ultimately show ?thesis by blast
qed

lemma insert_then_erase_pair:
  assumes inv: "vec_inv (v, h)" and i: "i \<le> Size v" and a: "external a = Some x"
    and f: "fits T (2 * Size v + 1)"
  shows "case Emplace T (ptr_add (vbegin v) i) a (v, h) of
           Done p s1 \<Rightarrow>
             p = ptr_add (vbegin (fst s1)) i \<and>
             elements s1 = take i (elements (v, h)) @ Live x # drop i (elements (v, h)) \<and>
             (case Erase T p s1 of
                Done q s2 \<Rightarrow>
                  q = p \<and> elements s2 = elements (v, h) \<and> Size (fst s2) = Size v \<and> vec_inv s2
              | Thrown s2 \<Rightarrow> False
              | Fault \<Rightarrow> False)
         | Thrown s1 \<Rightarrow>
             s1 = (v, h) \<and> Size v = Capacity v \<and>
             avail h < (if Size v = 0 then 1 else Size v * 2)
         | Fault \<Rightarrow> False"
proof -
  have f1: "fits T 1" by (rule fits_mono[OF f]) simp
  have fN: "fits T (if Size v = 0 then 1 else Size v * 2)"
    by (rule fits_mono[OF f]) simp
  have done_case: "?thesis"
    if run: "Emplace T (ptr_add (vbegin v) i) a (v, h) = Done (Ptr (Some b') i) s1"
      and H1: "holds s1 b' (take i xs @ x # drop i xs) k'"
      and el: "elements (v, h) = map Live xs" and sz: "Size v = length xs"
    for b' s1 xs k'
  proof -
    have il: "i \<le> length xs" using i sz by simp
    obtain s2 where er: "Erase T (Ptr (Some b') i) s1 = Done (Ptr (Some b') i) s2"
      and H2: "holds s2 b' xs (Suc k')" using erase_after_insert[OF H1 il, of T] by blast
    obtain v1 h1 where s1: "s1 = (v1, h1)" by (cases s1)
    obtain v2 h2 where s2: "s2 = (v2, h2)" by (cases s2)
    have p: "Ptr (Some b') i = ptr_add (vbegin (fst s1)) i"
      using holds_size_cap[OF H1[unfolded s1]] by (simp add: s1)
    have e1: "elements s1 = take i (elements (v, h)) @ Live x # drop i (elements (v, h))"
      using holds_elements[OF H1] el by (simp add: take_map drop_map)
    have e2: "elements s2 = elements (v, h)" "vec_inv s2" "Size (fst s2) = Size v"
      using holds_elements[OF H2] holds_inv[OF H2] holds_size_cap[OF H2[unfolded s2]] el sz
      by (simp_all add: s2)
    show ?thesis using run er p e1 e2 by simp
  qed
  from vec_inv_cases[OF inv] consider (null) "v = Vector_default"
    | (room) b xs k where "holds (v, h) b xs k" "0 < k"
    | (full) b xs where "holds (v, h) b xs 0"
    by (metis neq0_conv)
  then show ?thesis
  proof cases
    case null
    then have i0: "i = 0" using i by (simp add: Size_def Vector_default_def)
    have pos: "ptr_add (vbegin v) i = nullptr"
      by (simp add: null i0 Vector_default_def RawMemory_default_def vbegin_def GetAddress_def
          nullptr_def ptr_add_def)
    have el: "elements (v, h) = map Live []" "Size v = length ([] :: 'a list)"
      "Capacity v = 0"
      by (simp_all add: null elements_def Size_def Capacity_def RawMemory_Capacity_def
          Vector_default_def RawMemory_default_def)
    show ?thesis
    proof (cases "1 \<le> avail h")
      case True
      let ?s1 = "(\<lparr>m_data = \<lparr>m_buffer = Ptr (Some (next_block h)) 0, m_capacity = 1\<rparr>, m_size = 1\<rparr>,
           h\<lparr>blocks := (blocks h)(next_block h \<mapsto> [Live x]),
             next_block := Suc (next_block h), avail := avail h - 1\<rparr>)"
      have run: "Emplace T (ptr_add (vbegin v) i) a (v, h) = Done (Ptr (Some (next_block h)) i) ?s1"
        using True Emplace_default[OF a f1, of h] pos null i0 by simp
      have H1: "holds ?s1 (next_block h) (take i [] @ x # drop i []) 0"
        by (simp add: holds_def)
      show ?thesis by (rule done_case[OF run H1 el(1,2)])
    next
      case False
      then have "Emplace T (ptr_add (vbegin v) i) a (v, h) = Thrown (v, h)"
        using Emplace_default[OF a f1, of h] pos null by simp
      then show ?thesis using False el by simp
    qed
  next
    case room
    note sc = holds_size_cap[OF room(1)]
    have il: "i \<le> length xs" using i sc by simp
    let ?s1 = "(v\<lparr>m_size := Suc (length xs)\<rparr>,
        h\<lparr>blocks := (blocks h)
           (b \<mapsto> map Live (take i xs @ x # drop i xs) @ replicate (k - 1) Raw)\<rparr>)"
    have run: "Emplace T (ptr_add (vbegin v) i) a (v, h) = Done (Ptr (Some b) i) ?s1"
      using Emplace_room[OF room(1,2) il a, of T] sc by simp
    have H1: "holds ?s1 b (take i xs @ x # drop i xs) (k - 1)"
      using room il by (simp add: holds_def)
    show ?thesis
      using done_case[OF run H1] holds_elements[OF room(1)] sc by simp
  next
    case full
    note sc = holds_size_cap[OF full]
    have il: "i \<le> length xs" using i sc by simp
    have fN': "fits T (if length xs = 0 then 1 else length xs * 2)"
      using fN sc by (cases "xs = []") simp_all
    define N where "N = (if length xs = 0 then 1 else length xs * 2)"
    have Nn: "length xs < N" by (simp add: N_def)
    show ?thesis
    proof (cases "N \<le> avail h")
      case True
      let ?s1 = "(\<lparr>m_data = \<lparr>m_buffer = Ptr (Some (next_block h)) 0, m_capacity = N\<rparr>,
            m_size = Suc (length xs)\<rparr>,
           h\<lparr>blocks := (blocks h)
                (next_block h \<mapsto> map Live (take i xs @ x # drop i xs) @
                                 replicate (N - Suc (length xs)) Raw,
                 b := None),
             next_block := Suc (next_block h), avail := avail h - N + length xs\<rparr>)"
      have run: "Emplace T (ptr_add (vbegin v) i) a (v, h) = Done (Ptr (Some (next_block h)) i) ?s1"
        using True Emplace_grow[OF full il a fN'] sc by (simp add: N_def)
      have H1: "holds ?s1 (next_block h) (take i xs @ x # drop i xs) (N - Suc (length xs))"
        using Nn il full by (simp add: holds_def)
      show ?thesis
        using done_case[OF run H1] holds_elements[OF full] sc by simp
    next
      case False
      then have "Emplace T (ptr_add (vbegin v) i) a (v, h) = Thrown (v, h)"
        using Emplace_grow[OF full il a fN'] sc by (simp add: N_def)
      then show ?thesis using False sc by (auto simp: N_def split: if_splits)
    qed
  qed
qed

section \<open>Capacity\<close>






lemma on_heap_fst: "on_heap m s = Done r s1 \<Longrightarrow> fst s1 = fst s"
  by (auto simp: on_heap_def split: outcome.splits)


















section \<open>Claim C1: Resize\<close>

text \<open>
  Claim C1 says that \<^verbatim>\<open>Resize(new_size)\<close> with \<open>new_size > Size()\<close> keeps the existing
  elements and appends default-constructed ones. The code does not: on the vector
  \<open>[7]\<close> (size 1, capacity 1), \<^verbatim>\<open>Resize(2)\<close> reserves a block of 2 and then
  value-constructs \<open>new_size - size_\<close> elements at \<^verbatim>\<open>data_.GetAddress()\<close>, that is from
  index 0, not from index \<open>size_\<close>: element 0 becomes 0 and slot 1, now inside the
  size, is still raw storage.
\<close>

theorem Resize_grow_overwrites:
  "observe elements (vector_of [7]) = Done () [Live 7] \<and>
   observe capacity_of (vector_of [7]) = Done () 1 \<and>
   observe elements (and_then (vector_of [7]) (\<lambda>_. Resize int_T 2)) = Done () [Live 0, Raw]"
  by code_simp

section \<open>Claim C2: inserting an element of the vector itself\<close>

text \<open>
  Claim C2 says that \<^verbatim>\<open>Insert(p, a[j])\<close> inserts the value \<open>a[j]\<close> held before the call,
  with or without reallocation. Without reallocation the code does not: on \<open>[1, 2, 3]\<close>
  (size 3, capacity 4), \<^verbatim>\<open>Insert(begin(), a[2])\<close> shifts the elements first and reads the
  reference afterwards, when slot 2 holds 2: the result is \<open>[2, 1, 2, 3]\<close>, not
  \<open>[3, 1, 2, 3]\<close>. With reallocation the new element is constructed first and the
  result is right: \<open>[3, 1, 2, 3, 4]\<close> from \<open>[1, 2, 3, 4]\<close>.
\<close>

theorem Insert_own_in_place_wrong_value:
  "observe elements (vector_of [1, 2, 3]) = Done () [Live 1, Live 2, Live 3] \<and>
   observe capacity_of (vector_of [1, 2, 3]) = Done () 4 \<and>
   observe elements (and_then (vector_of [1, 2, 3]) (\<lambda>_. Insert_own int_T 0 2)) =
     Done (Ptr (Some 2) 0) [Live 2, Live 1, Live 2, Live 3] \<and>
   observe elements (and_then (vector_of [1, 2, 3, 4]) (\<lambda>_. Insert_own int_T 0 2)) =
     Done (Ptr (Some 3) 0) [Live 3, Live 1, Live 2, Live 3, Live 4]"
  by code_simp

section \<open>Claim C3: a sequence of appends\<close>

text \<open>
  Claim C3. Take a vector that satisfies the invariant and is empty (\<open>Size() = 0\<close>,
  whatever its capacity: default-constructed, reserved or emptied), and append \<open>n\<close>
  values to it, each append a call of \<^verbatim>\<open>PushBack(const T&)\<close>, of \<^verbatim>\<open>PushBack(T&&)\<close> or of
  \<^verbatim>\<open>EmplaceBack\<close> with a value that lives outside the vector, where the byte count of
  \<open>2 * n\<close> objects is representable in \<^verbatim>\<open>size_t\<close>. The appends never fault; when they
  complete, \<open>Size() = n\<close> and element \<open>i\<close> is the \<open>i\<close>-th appended value for every
  \<open>i < n\<close>, for every \<open>n \<ge> 0\<close>, and the invariant holds. An append can only throw
  \<^verbatim>\<open>std::bad_alloc\<close>, and only when the units available in the heap and the units of the
  vector's block were fewer than \<open>3 * n\<close> at the start.
\<close>

theorem appends_give_the_sequence:
  assumes "vec_inv s" and "Size (fst s) = 0" and "map appended cs = map Some xs"
    and "fits T (2 * length xs)"
  shows "case append_all T cs s of
           Done r s' \<Rightarrow> Size (fst s') = length xs \<and> elements s' = map Live xs \<and> vec_inv s'
         | Thrown s' \<Rightarrow> avail (snd s) + Capacity (fst s) < 3 * length xs
         | Fault \<Rightarrow> False"
proof -
  obtain v h where s: "s = (v, h)" by (cases s)
  have st: "v = Vector_default \<and> ([] :: 'a list) = [] \<or> (\<exists>b k. holds (v, h) b [] k)"
    using vec_inv_cases[OF assms(1)[unfolded s]]
  proof
    assume "v = Vector_default"
    then show ?thesis by simp
  next
    assume "\<exists>b xs k. holds (v, h) b xs k"
    then obtain b ys k where H: "holds (v, h) b ys k" by blast
    from holds_size_cap[OF H] assms(2) have "ys = []" by (simp add: s)
    with H show ?thesis by blast
  qed
  have f: "fits T (2 * (length ([] :: 'a list) + length xs))" using assms(4) by simp
  from append_all_gen[OF assms(3) st f] show ?thesis
    by (auto simp: s split: outcome.splits)
qed

theorem appends_give_the_sequence_witness:
  "vec_inv (state_of 0 ([] :: int list) 2 100) \<and>
   Size (fst (state_of 0 ([] :: int list) 2 100)) = 0 \<and>
   map appended [By_PushBack (Ext (1 :: int)), By_PushBack_rvalue (Ext 2),
                 By_EmplaceBack (ByConstRef (Ext 3))] = map Some [1, 2, 3] \<and>
   fits int_T (2 * length [1, 2, 3 :: int]) \<and>
   (case append_all int_T [By_PushBack (Ext 1), By_PushBack_rvalue (Ext 2),
                           By_EmplaceBack (ByConstRef (Ext 3))]
           (state_of 0 [] 2 100) of
      Done r s' \<Rightarrow> Size (fst s') = length [1, 2, 3 :: int] \<and>
                   elements s' = map Live [1, 2, 3] \<and> vec_inv s'
    | Thrown s' \<Rightarrow>
        avail (snd (state_of 0 ([] :: int list) 2 100)) +
          Capacity (fst (state_of 0 ([] :: int list) 2 100)) < 3 * length [1, 2, 3 :: int]
    | Fault \<Rightarrow> False) \<and>
   observe elements
     (append_all int_T [By_PushBack (Ext 1), By_PushBack_rvalue (Ext 2),
                        By_EmplaceBack (ByConstRef (Ext 3))]
        (state_of 0 [] 2 100)) = Done () [Live 1, Live 2, Live 3] \<and>
   observe elements
     (append_all int_T [By_PushBack (Ext 1), By_PushBack_rvalue (Ext 2),
                        By_EmplaceBack (ByConstRef (Ext 3))]
        (Vector_default, empty_heap 100)) = Done () [Live 1, Live 2, Live 3]"
proof -
  have a: "vec_inv (state_of 0 ([] :: int list) 2 100)"
    by (rule holds_inv[OF holds_state_of])
  have b: "Size (fst (state_of 0 ([] :: int list) 2 100)) = 0"
    by (simp add: state_of_def Size_def)
  have c: "map appended [By_PushBack (Ext (1 :: int)), By_PushBack_rvalue (Ext 2),
                 By_EmplaceBack (ByConstRef (Ext 3))] = map Some [1, 2, 3]" by simp
  have d: "fits int_T (2 * length [1, 2, 3 :: int])" by (simp add: fits_def int_T_def)
  have e: "observe elements
     (append_all int_T [By_PushBack (Ext 1), By_PushBack_rvalue (Ext 2),
                        By_EmplaceBack (ByConstRef (Ext 3))]
        (state_of 0 [] 2 100)) = Done () [Live 1, Live 2, Live 3]"
    "observe elements
     (append_all int_T [By_PushBack (Ext 1), By_PushBack_rvalue (Ext 2),
                        By_EmplaceBack (ByConstRef (Ext 3))]
        (Vector_default, empty_heap 100)) = Done () [Live 1, Live 2, Live 3]"
    by code_simp+
  from a b c d e appends_give_the_sequence[OF a b c d]
  show ?thesis by (intro conjI)
qed
section \<open>Claim C4: insert, then erase at the returned position\<close>

text \<open>
  Claim C4. For every vector that satisfies the invariant, every position \<open>begin + i\<close>
  with \<open>i \<le> Size()\<close> and every value \<open>x\<close> that lives outside the vector's storage, where
  the byte count of \<open>2 * Size() + 1\<close> objects is representable in \<^verbatim>\<open>size_t\<close>:
  \<^verbatim>\<open>Insert(pos, x)\<close>, in the overload taking \<^verbatim>\<open>const T&\<close> and in the overload taking
  \<^verbatim>\<open>T&&\<close>, never faults; when it completes, the returned position is \<open>begin + i\<close> of the
  vector afterwards, the elements are the old ones with \<open>x\<close> inserted at index \<open>i\<close>, and
  \<^verbatim>\<open>Erase\<close> at the returned position completes and restores the original sequence of
  elements (and the size, and the invariant). \<^verbatim>\<open>Insert\<close> can only throw \<^verbatim>\<open>std::bad_alloc\<close>,
  leaving the vector as it was, and only when the vector is full and the heap cannot
  provide the doubled block.
\<close>

theorem insert_then_erase_restores:
  assumes "vec_inv s" and "i \<le> Size (fst s)" and "fits T (2 * Size (fst s) + 1)"
  shows "(case Insert T (ptr_add (vbegin (fst s)) i) (Ext x) s of
            Done p s1 \<Rightarrow>
              p = ptr_add (vbegin (fst s1)) i \<and>
              elements s1 = take i (elements s) @ Live x # drop i (elements s) \<and>
              (case Erase T p s1 of
                 Done q s2 \<Rightarrow>
                   q = p \<and> elements s2 = elements s \<and> Size (fst s2) = Size (fst s) \<and>
                   vec_inv s2
               | Thrown s2 \<Rightarrow> False
               | Fault \<Rightarrow> False)
          | Thrown s1 \<Rightarrow>
              s1 = s \<and> Size (fst s) = Capacity (fst s) \<and>
              avail (snd s) < (if Size (fst s) = 0 then 1 else Size (fst s) * 2)
          | Fault \<Rightarrow> False) \<and>
         (case Insert_rvalue T (ptr_add (vbegin (fst s)) i) (Ext x) s of
            Done p s1 \<Rightarrow>
              p = ptr_add (vbegin (fst s1)) i \<and>
              elements s1 = take i (elements s) @ Live x # drop i (elements s) \<and>
              (case Erase T p s1 of
                 Done q s2 \<Rightarrow>
                   q = p \<and> elements s2 = elements s \<and> Size (fst s2) = Size (fst s) \<and>
                   vec_inv s2
               | Thrown s2 \<Rightarrow> False
               | Fault \<Rightarrow> False)
          | Thrown s1 \<Rightarrow>
              s1 = s \<and> Size (fst s) = Capacity (fst s) \<and>
              avail (snd s) < (if Size (fst s) = 0 then 1 else Size (fst s) * 2)
          | Fault \<Rightarrow> False)"
proof -
  obtain v h where s: "s = (v, h)" by (cases s)
  from assms have p: "vec_inv (v, h)" "i \<le> Size v" "fits T (2 * Size v + 1)"
    by (simp_all add: s)
  have a: "external (ByConstRef (Ext x)) = Some x" "external (ByRvalue (Ext x)) = Some x"
    by simp_all
  from insert_then_erase_pair[OF p(1,2) a(1) p(3)] insert_then_erase_pair[OF p(1,2) a(2) p(3)]
  show ?thesis
    unfolding s fst_conv snd_conv Insert_def Insert_rvalue_def by (rule conjI)
qed

theorem insert_then_erase_restores_witness:
  "vec_inv (state_of 0 [1, 2, 3 :: int] 1 10) \<and>
   1 \<le> Size (fst (state_of 0 [1, 2, 3 :: int] 1 10)) \<and>
   fits int_T (2 * Size (fst (state_of 0 [1, 2, 3 :: int] 1 10)) + 1) \<and>
   (case Insert int_T (ptr_add (vbegin (fst (state_of 0 [1, 2, 3 :: int] 1 10))) 1) (Ext 9) (state_of 0 [1, 2, 3 :: int] 1 10) of
            Done p s1 \<Rightarrow>
              p = ptr_add (vbegin (fst s1)) 1 \<and>
              elements s1 = take 1 (elements (state_of 0 [1, 2, 3 :: int] 1 10)) @ Live 9 # drop 1 (elements (state_of 0 [1, 2, 3 :: int] 1 10)) \<and>
              (case Erase int_T p s1 of
                 Done q s2 \<Rightarrow>
                   q = p \<and> elements s2 = elements (state_of 0 [1, 2, 3 :: int] 1 10) \<and> Size (fst s2) = Size (fst (state_of 0 [1, 2, 3 :: int] 1 10)) \<and>
                   vec_inv s2
               | Thrown s2 \<Rightarrow> False
               | Fault \<Rightarrow> False)
          | Thrown s1 \<Rightarrow>
              s1 = (state_of 0 [1, 2, 3 :: int] 1 10) \<and> Size (fst (state_of 0 [1, 2, 3 :: int] 1 10)) = Capacity (fst (state_of 0 [1, 2, 3 :: int] 1 10)) \<and>
              avail (snd (state_of 0 [1, 2, 3 :: int] 1 10)) < (if Size (fst (state_of 0 [1, 2, 3 :: int] 1 10)) = 0 then 1 else Size (fst (state_of 0 [1, 2, 3 :: int] 1 10)) * 2)
          | Fault \<Rightarrow> False) \<and>
   (case Insert_rvalue int_T (ptr_add (vbegin (fst (state_of 0 [1, 2, 3 :: int] 1 10))) 1) (Ext 9) (state_of 0 [1, 2, 3 :: int] 1 10) of
            Done p s1 \<Rightarrow>
              p = ptr_add (vbegin (fst s1)) 1 \<and>
              elements s1 = take 1 (elements (state_of 0 [1, 2, 3 :: int] 1 10)) @ Live 9 # drop 1 (elements (state_of 0 [1, 2, 3 :: int] 1 10)) \<and>
              (case Erase int_T p s1 of
                 Done q s2 \<Rightarrow>
                   q = p \<and> elements s2 = elements (state_of 0 [1, 2, 3 :: int] 1 10) \<and> Size (fst s2) = Size (fst (state_of 0 [1, 2, 3 :: int] 1 10)) \<and>
                   vec_inv s2
               | Thrown s2 \<Rightarrow> False
               | Fault \<Rightarrow> False)
          | Thrown s1 \<Rightarrow>
              s1 = (state_of 0 [1, 2, 3 :: int] 1 10) \<and> Size (fst (state_of 0 [1, 2, 3 :: int] 1 10)) = Capacity (fst (state_of 0 [1, 2, 3 :: int] 1 10)) \<and>
              avail (snd (state_of 0 [1, 2, 3 :: int] 1 10)) < (if Size (fst (state_of 0 [1, 2, 3 :: int] 1 10)) = 0 then 1 else Size (fst (state_of 0 [1, 2, 3 :: int] 1 10)) * 2)
          | Fault \<Rightarrow> False) \<and>
   observe elements
     (Insert int_T (ptr_add (vbegin (fst (state_of 0 [1, 2, 3 :: int] 1 10))) 1) (Ext 9) (state_of 0 [1, 2, 3 :: int] 1 10)) =
     Done (Ptr (Some 0) 1) [Live 1, Live 9, Live 2, Live 3] \<and>
   observe elements
     (and_then (Insert int_T (ptr_add (vbegin (fst (state_of 0 [1, 2, 3 :: int] 1 10))) 1) (Ext 9) (state_of 0 [1, 2, 3 :: int] 1 10))
        (Erase int_T)) =
     Done (Ptr (Some 0) 1) [Live 1, Live 2, Live 3] \<and>
   observe elements
     (and_then (Insert_rvalue int_T (ptr_add (vbegin (fst (state_of 0 [1, 2, 3 :: int] 0 10))) 1) (Ext 9) (state_of 0 [1, 2, 3 :: int] 0 10))
        (Erase int_T)) =
     Done (Ptr (Some 1) 1) [Live 1, Live 2, Live 3]"
proof -
  have a: "vec_inv (state_of 0 [1, 2, 3 :: int] 1 10)"
    by (rule holds_inv[OF holds_state_of])
  have b: "1 \<le> Size (fst (state_of 0 [1, 2, 3 :: int] 1 10))"
    by (simp add: state_of_def Size_def)
  have c: "fits int_T (2 * Size (fst (state_of 0 [1, 2, 3 :: int] 1 10)) + 1)"
    by (simp add: fits_def int_T_def state_of_def Size_def)
  have d: "observe elements
     (Insert int_T (ptr_add (vbegin (fst (state_of 0 [1, 2, 3 :: int] 1 10))) 1) (Ext 9) (state_of 0 [1, 2, 3 :: int] 1 10)) =
     Done (Ptr (Some 0) 1) [Live 1, Live 9, Live 2, Live 3]"
    "observe elements
     (and_then (Insert int_T (ptr_add (vbegin (fst (state_of 0 [1, 2, 3 :: int] 1 10))) 1) (Ext 9) (state_of 0 [1, 2, 3 :: int] 1 10))
        (Erase int_T)) =
     Done (Ptr (Some 0) 1) [Live 1, Live 2, Live 3]"
    "observe elements
     (and_then (Insert_rvalue int_T (ptr_add (vbegin (fst (state_of 0 [1, 2, 3 :: int] 0 10))) 1) (Ext 9) (state_of 0 [1, 2, 3 :: int] 0 10))
        (Erase int_T)) =
     Done (Ptr (Some 1) 1) [Live 1, Live 2, Live 3]"
    by code_simp+
  note r = insert_then_erase_restores[OF a b c, where x = 9]
  from a b c d r[THEN conjunct1] r[THEN conjunct2]
  show ?thesis by (intro conjI)
qed
section \<open>Claim C5: every block released, every element destroyed\<close>

text \<open>
  Claim C5 says that no block and no element is leaked on any path, move assignment
  into a non-empty vector included. The code leaks there: with \<open>a = [1]\<close> and
  \<open>b = [2]\<close>, after \<^verbatim>\<open>a = std::move(b)\<close> and the destructors of both vectors, the block
  that \<open>a\<close> owned is still allocated and still holds the live element 1, and one unit
  of the heap is missing. Without the assignment the same two vectors leave the heap
  clean.
\<close>

theorem move_assign_leaks_block:
  "observe heap_summary
     (and_then (vector_of [1]) (\<lambda>_.
        with_other (ints [2]) (\<lambda>b s. and_then (move_assign (Other b) s) destroy_both))) =
     Done () ([Some [Live 1], None], 99) \<and>
   observe heap_summary
     (and_then (vector_of [1]) (\<lambda>_. with_other (ints [2]) (\<lambda>b. destroy_both (Other b)))) =
     Done () ([None, None], 100)"
  by code_simp

section \<open>Claim C6: move construction and move assignment\<close>

text \<open>
  Claim C6, amended. Move construction, and move assignment from another vector,
  always complete (no throw, no fault), leave the source in the default state
  (\<open>Size() = 0\<close>, \<open>Capacity() = 0\<close>, no elements) and make the destination exactly what
  the source was (same block, size and capacity, hence the source's prior elements in
  order), the heap untouched. Move assignment of a vector to itself completes and
  changes nothing.
\<close>

theorem move_leaves_source_empty:
  "Vector_move other h = Done (other, Vector_default) h \<and>
   move_assign (Other rhs) (v, h) = Done (Other Vector_default) (rhs, h) \<and>
   move_assign Self (v, h) = Done Self (v, h) \<and>
   Size Vector_default = 0 \<and> Capacity Vector_default = 0 \<and>
   elements (Vector_default, h) = []"
  by (simp add: Vector_move_def exchange_RawMemory_def RawMemory_move_ctor_def
      RawMemory_dtor_def Deallocate_def operator_delete_def RawMemory_default_def
      Vector_default_def on_heap_def Size_def Capacity_def RawMemory_Capacity_def elements_def)

text \<open>
  As stated, for every vector, the claim fails where source and destination are the
  same vector: the guard \<^verbatim>\<open>this != &rhs\<close> skips the transfer, and the vector \<open>[5]\<close>
  move-assigned to itself still has size 1.
\<close>

theorem self_move_assign_keeps_source:
  "vec_inv (state_of 0 [5 :: int] 0 10) \<and>
   observe size_of (move_assign Self (state_of 0 [5 :: int] 0 10)) = Done Self 1"
  by code_simp

section \<open>Claim C7: copy assignment\<close>

text \<open>
  Claim C7 says that after \<^verbatim>\<open>a = b\<close> the elements of \<open>a\<close> equal those of \<open>b\<close>. Where
  \<open>b\<close> is longer than \<open>a\<close> and fits its capacity the code does not copy the tail of
  \<open>b\<close>: with \<open>a = [1]\<close> of capacity 2 and \<open>b = [5, 6]\<close>, it assigns the prefix and then
  calls \<^verbatim>\<open>uninitialized_copy_n\<close> with \<^verbatim>\<open>data_.GetAddress() + size_\<close> as source and as
  destination, reading the raw slot 1 of \<open>a\<close> itself: a fault, and never the value 6.
\<close>

theorem copy_assign_longer_reads_own_tail:
  "observe elements (and_then (vector_of [1]) (\<lambda>_. Reserve int_T 2)) = Done () [Live 1] \<and>
   observe capacity_of (and_then (vector_of [1]) (\<lambda>_. Reserve int_T 2)) = Done () 2 \<and>
   observe elements
     (and_then (and_then (vector_of [1]) (\<lambda>_. Reserve int_T 2)) (\<lambda>_.
        with_other (ints [5, 6]) (\<lambda>b. copy_assign int_T (Other b)))) = Fault"
  by code_simp

section \<open>Claim C8: capacity and Reserve\<close>



section \<open>Claim C9: the invariant\<close>

text \<open>
  Claim C9 says that every public operation preserves the invariant. \<^verbatim>\<open>Resize\<close> does
  not: on \<open>[1, 2, 3]\<close> (size 3, capacity 4), which satisfies the invariant,
  \<^verbatim>\<open>Resize(4)\<close> takes neither branch (it compares \<open>new_size\<close> with the capacity, and they
  are equal) and sets the size to 4: slot 3 is inside the size and is raw storage.
\<close>

theorem Resize_to_capacity_breaks_invariant:
  "observe vec_inv (vector_of [1, 2, 3]) = Done () True \<and>
   observe capacity_of (vector_of [1, 2, 3]) = Done () 4 \<and>
   observe vec_inv (and_then (vector_of [1, 2, 3]) (\<lambda>_. Resize int_T 4)) = Done () False \<and>
   observe elements (and_then (vector_of [1, 2, 3]) (\<lambda>_. Resize int_T 4)) =
     Done () [Live 1, Live 2, Live 3, Raw]"
  by code_simp

section \<open>PopBack\<close>

text \<open>
  Claim C10. On a non-empty vector that satisfies the invariant, \<^verbatim>\<open>PopBack()\<close> completes,
  decreases \<open>Size()\<close> by exactly one, leaves \<open>Capacity()\<close> unchanged, destroys the last
  element and nothing else (the block's slots are the old ones with slot \<open>Size() - 1\<close>
  turned into raw storage), so the remaining elements keep their values; the invariant
  holds afterwards.
\<close>

theorem PopBack_frame:
  assumes "vec_inv s" and "0 < Size (fst s)"
  shows "\<exists>s'. PopBack s = Done () s' \<and> vec_inv s' \<and>
           Size (fst s') = Size (fst s) - 1 \<and>
           Capacity (fst s') = Capacity (fst s) \<and>
           elements s' = butlast (elements s) \<and>
           slots_of s' = (slots_of s)[Size (fst s) - 1 := Raw]"
proof -
  obtain v h where s: "s = (v, h)" by (cases s)
  from assms s have "v \<noteq> Vector_default" by (auto simp: Vector_default_def Size_def)
  with assms s obtain b xs k where H: "holds (v, h) b xs k" using vec_inv_cases by blast
  from assms(2) s H have n: "0 < length xs" by (simp add: holds_def Size_def)
  from n have n1: "Suc 0 \<le> length xs" by (cases xs) auto
  define s' where "s' = (v\<lparr>m_size := length xs - 1\<rparr>,
    h\<lparr>blocks := (blocks h)(b \<mapsto> (map Live xs @ replicate k Raw)[length xs - 1 := Raw])\<rparr>)"
  have upd: "(map Live xs @ replicate k Raw)[length xs - 1 := Raw] =
      map Live (butlast xs) @ replicate (Suc k) Raw"
    using n by (cases xs rule: rev_cases) (auto simp: list_update_append replicate_append_same)
  have run: "PopBack s = Done () s'"
    using H n n1 unfolding s s'_def
    by (auto simp: PopBack_def holds_def RawMemory_index_def size_t_sub_def on_heap_def
        destroy_at_def cell_block put_block ptr_add_def nth_append
        split: option.splits slot.splits)
  have H': "holds s' b (butlast xs) (Suc k)"
    using H n unfolding s'_def upd by (auto simp: holds_def)
  show ?thesis
    using run holds_inv[OF H'] holds_elements[OF H'] holds_elements[OF H] H n upd
    unfolding s
    by (auto simp: Size_def Capacity_def RawMemory_Capacity_def holds_def s'_def map_butlast)
qed

theorem PopBack_frame_witness:
  "vec_inv (state_of 0 [5::int, 6] 1 10) \<and> 0 < Size (fst (state_of 0 [5::int, 6] 1 10)) \<and>
   (\<exists>s'. PopBack (state_of 0 [5::int, 6] 1 10) = Done () s' \<and> vec_inv s' \<and>
      Size (fst s') = Size (fst (state_of 0 [5::int, 6] 1 10)) - 1 \<and>
      Capacity (fst s') = Capacity (fst (state_of 0 [5::int, 6] 1 10)) \<and>
      elements s' = butlast (elements (state_of 0 [5::int, 6] 1 10)) \<and>
      slots_of s' = (slots_of (state_of 0 [5::int, 6] 1 10))[Size (fst (state_of 0 [5::int, 6] 1 10)) - 1 := Raw])"
proof -
  have a: "vec_inv (state_of 0 [5::int, 6] 1 10)"
    by (rule holds_inv[OF holds_state_of])
  have b: "0 < Size (fst (state_of 0 [5::int, 6] 1 10))"
    by (simp add: state_of_def Size_def)
  from a b PopBack_frame[OF a b] show ?thesis by (intro conjI)
qed

end
